theory Spec2Isabelle
  imports Complex_Main "HOL-Library.Sublist" "HOL-Library.Code_Target_Nat"
begin

section \<open>Strings\<close>

text \<open>
  A JavaScript string is modelled as a \<^typ>\<open>string\<close>: every \<^typ>\<open>char\<close> stands for one
  code unit below 256 (the Latin-1 block), which covers the alphabet the recognition engine is
  restricted to. \<open>code\<close> reads the code unit.
\<close>

definition code :: "char \<Rightarrow> nat" where
  "code c = of_char c"

definition is_space :: "char \<Rightarrow> bool" where
  \<comment> \<open>the white space and line terminators of ECMAScript below 256: what \<open>\s\<close> matches and
      what \<open>trim\<close> removes\<close>
  "is_space c = (code c \<in> {9, 10, 11, 12, 13, 32, 160})"

definition lower_char :: "char \<Rightarrow> char" where
  "lower_char c =
     (if (65 \<le> code c \<and> code c \<le> 90) \<or> (192 \<le> code c \<and> code c \<le> 222 \<and> code c \<noteq> 215)
      then char_of (code c + 32) else c)"

definition toLowerCase :: "string \<Rightarrow> string" where
  "toLowerCase s = map lower_char s"

definition trim :: "string \<Rightarrow> string" where
  "trim s = rev (dropWhile is_space (rev (dropWhile is_space s)))"

function collapse_spaces :: "string \<Rightarrow> string" where
  \<comment> \<open>\<open>replace(/\s+/g, ' ')\<close>: every maximal run of white space becomes one blank\<close>
  "collapse_spaces [] = []"
| "collapse_spaces (c # cs) =
     (if is_space c then CHR '' '' # collapse_spaces (dropWhile is_space cs)
      else c # collapse_spaces cs)"
  by pat_completeness auto
termination
  by (relation "measure length") (auto simp: less_Suc_eq_le length_dropWhile_le)

fun includes_str :: "string \<Rightarrow> string \<Rightarrow> bool" where
  \<comment> \<open>\<open>s.includes(t)\<close>: \<open>t\<close> occurs in \<open>s\<close> as a contiguous block\<close>
  "includes_str [] t = (t = [])"
| "includes_str (c # cs) t = (prefix t (c # cs) \<or> includes_str cs t)"

fun split_blank :: "string \<Rightarrow> string list" where
  \<comment> \<open>\<open>s.split(' ')\<close>: cut at every single blank; the empty string gives one empty piece\<close>
  "split_blank [] = [[]]"
| "split_blank (c # cs) =
     (if c = CHR '' '' then [] # split_blank cs
      else (case split_blank cs of [] \<Rightarrow> [[c]] | w # ws \<Rightarrow> (c # w) # ws))"

section \<open>Identity matcher (mapping.service.ts)\<close>

record TravellerInfo =
  traveller_id :: string
  traveller_name :: string

definition normalize :: "string \<Rightarrow> string" where
  "normalize name = collapse_spaces (trim (toLowerCase name))"

text \<open>
  The score is a JavaScript number. Every value it takes is \<open>1\<close>, \<open>0.8\<close> or the quotient of two
  word counts, and the only operations on it are the comparisons with \<open>0.6\<close> and with another
  score. The division of doubles is correctly rounded and two different quotients of word counts
  below \<open>2\<^sup>2\<^sup>6\<close> are more than \<open>2\<^sup>-\<^sup>5\<^sup>2\<close> apart, so these comparisons come out on the
  doubles as they do on the exact quotients. The score is modelled by the exact rational.
\<close>

definition fuzzy_match_name :: "string \<Rightarrow> string \<Rightarrow> rat" where
  "fuzzy_match_name name1 name2 =
     (let n1 = normalize name1; n2 = normalize name2 in
      if n1 = n2 then 1
      else if includes_str n1 n2 \<or> includes_str n2 n1 then 4 / 5
      else
        let words1 = split_blank n1; words2 = split_blank n2;
            common_words = filter (\<lambda>w. w \<in> set words2) words1;
            total_words = max (length words1) (length words2)
        in if total_words = 0 then 0
           else of_nat (length common_words) / of_nat total_words)"

definition threshold :: rat where
  "threshold = 3 / 5"

definition consider_traveller ::
  "string \<Rightarrow> TravellerInfo \<Rightarrow> (string \<times> rat) option \<Rightarrow> (string \<times> rat) option" where
  \<comment> \<open>the body of the loop over the travellers; the state is \<open>best_match\<close>\<close>
  "consider_traveller extracted_name traveller best_match =
     (let score = fuzzy_match_name extracted_name (traveller_name traveller) in
      if score \<ge> threshold \<and> (case best_match of None \<Rightarrow> True | Some b \<Rightarrow> score > snd b)
      then Some (traveller_id traveller, score)
      else best_match)"

definition map_ticket_to_passenger :: "string option \<Rightarrow> TravellerInfo list \<Rightarrow> string option" where
  \<comment> \<open>\<open>!extracted_name\<close> holds for \<open>undefined\<close> and for the empty string\<close>
  "map_ticket_to_passenger extracted_name travellers =
     (case extracted_name of
        None \<Rightarrow> None
      | Some name \<Rightarrow>
          if name = [] \<or> travellers = [] then None
          else map_option fst (fold (consider_traveller name) travellers None))"

definition trim_end :: "string \<Rightarrow> string" where
  \<comment> \<open>the right half of \<open>trim\<close>, used to reason about it\<close>
  "trim_end s = rev (dropWhile is_space (rev s))"

subsection \<open>The reference score\<close>

text \<open>
  The reference definition of the score, written from its description and independently of the
  code: a name is cut into its white-space-delimited tokens; normalizing lower-cases the name and
  joins its tokens by single blanks; containment is \<^const>\<open>sublist\<close>; the shared tokens are the
  tokens of the first name that occur among the tokens of the second.
\<close>

function tokens :: "string \<Rightarrow> string list" where
  "tokens s =
     (let r = dropWhile is_space s in
      if r = [] then []
      else takeWhile (\<lambda>c. \<not> is_space c) r # tokens (dropWhile (\<lambda>c. \<not> is_space c) r))"
  by pat_completeness auto
termination
proof (relation "measure length", goal_cases)
  case 1
  show ?case by simp
next
  case (2 s r)
  from 2(2) obtain x xs where r: "r = x # xs" by (cases r) auto
  with 2 have "\<not> is_space x" by (metis hd_dropWhile list.sel(1))
  then have "length (dropWhile (\<lambda>c. \<not> is_space c) r) \<le> length xs"
    by (simp add: r length_dropWhile_le)
  moreover have "length r \<le> length s" using 2 by (simp add: length_dropWhile_le)
  ultimately show ?case by (simp add: r)
qed

declare tokens.simps [simp del]

fun join_blank :: "string list \<Rightarrow> string" where
  "join_blank [] = []"
| "join_blank [w] = w"
| "join_blank (w # v # ws) = w @ CHR '' '' # join_blank (v # ws)"

definition normalize_ref :: "string \<Rightarrow> string" where
  "normalize_ref name = join_blank (tokens (toLowerCase name))"

definition score_ref :: "string \<Rightarrow> string \<Rightarrow> rat" where
  "score_ref a b =
     (let na = normalize_ref a; nb = normalize_ref b; ta = tokens na; tb = tokens nb in
      if na = nb then 1
      else if sublist na nb \<or> sublist nb na then 4 / 5
      else if ta = [] \<or> tb = [] then 0
      else of_nat (length (filter (\<lambda>w. w \<in> set tb) ta)) / of_nat (max (length ta) (length tb)))"

definition three_travellers :: "TravellerInfo list" where
  "three_travellers =
     [\<lparr>traveller_id = ''t1'', traveller_name = ''Jane Roe''\<rparr>,
      \<lparr>traveller_id = ''t2'', traveller_name = ''John Doe''\<rparr>,
      \<lparr>traveller_id = ''t3'', traveller_name = ''JOHN  DOE''\<rparr>]"

section \<open>Regular expressions\<close>

text \<open>
  The extractors search the recognized text with regular expressions. The fragment of the
  ECMAScript pattern language they use is modelled by a datatype and a backtracking matcher in
  continuation-passing style, which explores the alternatives in the order the language
  prescribes: an alternation tries its left branch first, a greedy quantifier tries one more
  iteration before it tries to stop, a lazy one the other way round, and an iteration that is not
  required and consumes nothing is rejected. Character classes are lists of ranges of code units.
  With the flag \<open>i\<close> a character matches a class when the class holds it or its other case; all
  the classes of the patterns below hold ASCII characters and white space only, for which this is
  the canonicalization of the language. A capture is the text its group matched last; no
  capturing group of the patterns below stands inside a quantifier.
\<close>

definition upper_char :: "char \<Rightarrow> char" where
  "upper_char c =
     (if (97 \<le> code c \<and> code c \<le> 122) \<or> (224 \<le> code c \<and> code c \<le> 254 \<and> code c \<noteq> 247)
      then char_of (code c - 32) else c)"

definition toUpperCase :: "string \<Rightarrow> string" where
  \<comment> \<open>exact on every code unit below 256 whose upper case is one code unit below 256; the
      extractors apply it to ASCII letters and digits only\<close>
  "toUpperCase s = map upper_char s"

datatype regex =
    Eps
  | Chars "(char \<times> char) list"
  | Seq regex regex
  | Alt regex regex
  | Group nat regex
  | Repeat nat "nat option" bool regex
  | WordBoundary
  | NotFollowedBy regex
  | InputStart
  | InputEnd

record mstate =
  \<comment> \<open>a position in the text: the character before it, the text from it on, and the captures\<close>
  prev :: "char option"
  rest :: string
  captures :: "(nat \<times> string) list"

type_synonym cont = "mstate \<Rightarrow> mstate option"

definition in_ranges :: "(char \<times> char) list \<Rightarrow> char \<Rightarrow> bool" where
  "in_ranges rs c = list_ex (\<lambda>(lo, hi). code lo \<le> code c \<and> code c \<le> code hi) rs"

definition in_class :: "bool \<Rightarrow> (char \<times> char) list \<Rightarrow> char \<Rightarrow> bool" where
  "in_class ignore_case rs c =
     (in_ranges rs c \<or> (ignore_case \<and> (in_ranges rs (upper_char c) \<or> in_ranges rs (lower_char c))))"

definition is_word_char :: "char option \<Rightarrow> bool" where
  "is_word_char c = (case c of None \<Rightarrow> False
     | Some c \<Rightarrow> in_ranges [(CHR ''a'', CHR ''z''), (CHR ''A'', CHR ''Z''), (CHR ''0'', CHR ''9''), (CHR ''_'', CHR ''_'')] c)"

definition next_char :: "mstate \<Rightarrow> char option" where
  "next_char s = (case rest s of [] \<Rightarrow> None | c # _ \<Rightarrow> Some c)"

definition decr :: "nat option \<Rightarrow> nat option" where
  "decr hi = map_option (\<lambda>h. h - 1) hi"

function repeat_re ::
  "(cont \<Rightarrow> mstate \<Rightarrow> mstate option) \<Rightarrow> nat \<Rightarrow> nat option \<Rightarrow> bool \<Rightarrow> cont \<Rightarrow> mstate \<Rightarrow> mstate option" where
  "repeat_re m lo hi greedy k s =
     (if hi = Some 0 then k s
      else if 0 < lo then m (\<lambda>s'. repeat_re m (lo - 1) (decr hi) greedy k s') s
      else if greedy then
        (case m (\<lambda>s'. if length (rest s') < length (rest s)
                       then repeat_re m 0 (decr hi) greedy k s' else None) s of
           Some e \<Rightarrow> Some e
         | None \<Rightarrow> k s)
      else
        (case k s of
           Some e \<Rightarrow> Some e
         | None \<Rightarrow> m (\<lambda>s'. if length (rest s') < length (rest s)
                             then repeat_re m 0 (decr hi) greedy k s' else None) s))"
  by pat_completeness auto
termination
  by (relation "(\<lambda>(m, lo, hi, greedy, k, s). lo) <*mlex*> measure (\<lambda>(m, lo, hi, greedy, k, s). length (rest s))")
    (auto simp: wf_mlex mlex_less mlex_leq)

declare repeat_re.simps [simp del]

primrec match_re :: "bool \<Rightarrow> regex \<Rightarrow> cont \<Rightarrow> mstate \<Rightarrow> mstate option" where
  "match_re ic Eps k s = k s"
| "match_re ic (Chars rs) k s =
     (case rest s of
        [] \<Rightarrow> None
      | c # cs \<Rightarrow> if in_class ic rs c then k (s\<lparr>prev := Some c, rest := cs\<rparr>) else None)"
| "match_re ic (Seq a b) k s = match_re ic a (match_re ic b k) s"
| "match_re ic (Alt a b) k s =
     (case match_re ic a k s of Some e \<Rightarrow> Some e | None \<Rightarrow> match_re ic b k s)"
| "match_re ic (Group n a) k s =
     match_re ic a
       (\<lambda>s'. k (s'\<lparr>captures := (n, take (length (rest s) - length (rest s')) (rest s)) # captures s'\<rparr>)) s"
| "match_re ic (Repeat lo hi greedy a) k s = repeat_re (match_re ic a) lo hi greedy k s"
| "match_re ic WordBoundary k s =
     (if is_word_char (prev s) \<noteq> is_word_char (next_char s) then k s else None)"
| "match_re ic (NotFollowedBy a) k s =
     (case match_re ic a Some s of None \<Rightarrow> k s | Some _ \<Rightarrow> None)"
| "match_re ic InputStart k s = (if prev s = None then k s else None)"
| "match_re ic InputEnd k s = (if rest s = [] then k s else None)"

record rmatch =
  \<comment> \<open>a match: its position in the text, \<open>match[0]\<close> and the captured groups\<close>
  index :: nat
  matched :: string
  groups :: "(nat \<times> string) list"

definition match_at :: "bool \<Rightarrow> regex \<Rightarrow> char option \<Rightarrow> nat \<Rightarrow> string \<Rightarrow> rmatch option" where
  "match_at ic r b i s =
     (case match_re ic r Some \<lparr>prev = b, rest = s, captures = []\<rparr> of
        None \<Rightarrow> None
      | Some e \<Rightarrow> Some \<lparr>index = i, matched = take (length s - length (rest e)) s, groups = captures e\<rparr>)"

text \<open>
  \<open>text.match(pattern)\<close> without the flag \<open>g\<close> returns the leftmost match; \<open>text.matchAll\<close>
  returns all matches from left to right, each search starting where the match before it ended
  (one character further after an empty match). \<open>skip\<close> counts the positions still covered by
  the match before.
\<close>

primrec search :: "bool \<Rightarrow> regex \<Rightarrow> char option \<Rightarrow> nat \<Rightarrow> string \<Rightarrow> rmatch option" where
  "search ic r b i [] = match_at ic r b i []"
| "search ic r b i (c # cs) =
     (case match_at ic r b i (c # cs) of
        Some m \<Rightarrow> Some m
      | None \<Rightarrow> search ic r (Some c) (Suc i) cs)"

primrec search_all :: "bool \<Rightarrow> regex \<Rightarrow> char option \<Rightarrow> nat \<Rightarrow> nat \<Rightarrow> string \<Rightarrow> rmatch list" where
  "search_all ic r b i skip [] =
     (if skip = 0 then (case match_at ic r b i [] of None \<Rightarrow> [] | Some m \<Rightarrow> [m]) else [])"
| "search_all ic r b i skip (c # cs) =
     (if 0 < skip then search_all ic r (Some c) (Suc i) (skip - 1) cs
      else (case match_at ic r b i (c # cs) of
              None \<Rightarrow> search_all ic r (Some c) (Suc i) 0 cs
            | Some m \<Rightarrow> m # search_all ic r (Some c) (Suc i) (length (matched m) - 1) cs))"

definition js_match :: "bool \<Rightarrow> regex \<Rightarrow> string \<Rightarrow> rmatch option" where
  "js_match ic r text = search ic r None 0 text"

definition matchAll :: "bool \<Rightarrow> regex \<Rightarrow> string \<Rightarrow> rmatch list" where
  "matchAll ic r text = search_all ic r None 0 0 text"

definition capture :: "rmatch \<Rightarrow> nat \<Rightarrow> string option" where
  \<comment> \<open>\<open>match[n]\<close>, \<open>None\<close> for \<open>undefined\<close>\<close>
  "capture m n = map_of (groups m) n"

fun seqs :: "regex list \<Rightarrow> regex" where
  "seqs [] = Eps"
| "seqs [r] = r"
| "seqs (r # rs) = Seq r (seqs rs)"

fun alts :: "regex list \<Rightarrow> regex" where
  "alts [] = Eps"
| "alts [r] = r"
| "alts (r # rs) = Alt r (alts rs)"

definition lit :: "string \<Rightarrow> regex" where
  "lit s = seqs (map (\<lambda>c. Chars [(c, c)]) s)"

definition white :: "(char \<times> char) list" where
  \<comment> \<open>\<open>\s\<close>\<close>
  "white = [(CHR 0x09, CHR 0x0D), (CHR '' '', CHR '' ''), (CHR 0xA0, CHR 0xA0)]"

definition digit :: "(char \<times> char) list" where
  \<comment> \<open>\<open>\d\<close>\<close>
  "digit = [(CHR ''0'', CHR ''9'')]"

definition AZ :: "(char \<times> char) list" where
  "AZ = [(CHR ''A'', CHR ''Z'')]"

definition az :: "(char \<times> char) list" where
  "az = [(CHR ''a'', CHR ''z'')]"

definition any_char :: "(char \<times> char) list" where
  \<comment> \<open>\<open>[\s\S]\<close>\<close>
  "any_char = [(CHR 0x00, CHR 0xFF)]"

definition one_of :: "string \<Rightarrow> (char \<times> char) list" where
  "one_of cs = map (\<lambda>c. (c, c)) cs"

definition many :: "regex \<Rightarrow> regex" where
  \<comment> \<open>\<open>r*\<close>\<close>
  "many r = Repeat 0 None True r"

definition many1 :: "regex \<Rightarrow> regex" where
  \<comment> \<open>\<open>r+\<close>\<close>
  "many1 r = Repeat 1 None True r"

definition optional :: "regex \<Rightarrow> regex" where
  \<comment> \<open>\<open>r?\<close>\<close>
  "optional r = Repeat 0 (Some 1) True r"

definition between :: "nat \<Rightarrow> nat \<Rightarrow> regex \<Rightarrow> regex" where
  \<comment> \<open>\<open>r{lo,hi}\<close>\<close>
  "between lo hi r = Repeat lo (Some hi) True r"

text \<open>
  Two notions for the proofs: a matcher \<open>advances\<close> when every result it gives was given by its
  continuation at a position not before the one it started from; a \<open>letter\<close> is an ASCII letter.
\<close>

definition advances :: "(cont \<Rightarrow> mstate \<Rightarrow> mstate option) \<Rightarrow> bool" where
  "advances m = (\<forall>k s e. m k s = Some e \<longrightarrow> (\<exists>s'. k s' = Some e \<and> length (rest s') \<le> length (rest s)))"

definition letter :: "char \<Rightarrow> bool" where
  "letter c = ((65 \<le> code c \<and> code c \<le> 90) \<or> (97 \<le> code c \<and> code c \<le> 122))"

section \<open>Flight tickets (flight.service.ts)\<close>

text \<open>
  The extracted data is an object whose properties are optional strings. It is modelled as the
  list of its properties in the order of their first assignment.
\<close>

type_synonym fields = "(string \<times> string) list"

fun assign :: "string \<Rightarrow> string \<Rightarrow> fields \<Rightarrow> fields" where
  "assign k v [] = [(k, v)]"
| "assign k v ((k', v') # ps) = (if k' = k then (k, v) # ps else (k', v') # assign k v ps)"

definition lookup :: "fields \<Rightarrow> string \<Rightarrow> string option" where
  \<comment> \<open>\<open>obj.k\<close>, \<open>None\<close> for \<open>undefined\<close>\<close>
  "lookup obj k = map_of obj k"

definition falsy :: "string option \<Rightarrow> bool" where
  "falsy v = (v = None \<or> v = Some [])"

definition flight_keywords :: "string list" where
  "flight_keywords =
     [''pnr'', ''booking reference'', ''flight'', ''airline'', ''departure'', ''arrival'',
      ''passenger'', ''ticket'', ''boarding'', ''gate'', ''seat'', ''airport'']"

definition validate_flight_ticket :: "string \<Rightarrow> bool" where
  "validate_flight_ticket text =
     (let lower_text = toLowerCase text;
          found_keywords = filter (\<lambda>keyword. includes_str lower_text keyword) flight_keywords
      in length found_keywords \<ge> 3)"

definition pnr_patterns :: "regex list" where
  "pnr_patterns =
     [seqs [Alt (lit ''pnr'') (seqs [lit ''booking'', many1 (Chars white), lit ''reference'']),
            many (Chars (one_of '':'' @ white)),
            Group 1 (between 6 6 (Chars (AZ @ digit)))],
      seqs [WordBoundary, Group 1 (between 6 6 (Chars (AZ @ digit))), WordBoundary,
            NotFollowedBy (seqs [many (Chars white),
              alts [lit ''hrs'', lit ''hours'', lit ''pm'', lit ''am'']])]]"

fun extract_pnr :: "regex list \<Rightarrow> string \<Rightarrow> string option" where
  "extract_pnr [] text = None"
| "extract_pnr (pattern # patterns) text =
     (case js_match True pattern text of
        None \<Rightarrow> extract_pnr patterns text
      | Some m \<Rightarrow>
          (case capture m 1 of
             None \<Rightarrow> extract_pnr patterns text
           | Some g \<Rightarrow> if g \<noteq> [] \<and> length g = 6 then Some (toUpperCase g)
                       else extract_pnr patterns text))"

definition capitalized_words :: regex where
  \<comment> \<open>\<open>[A-Z][a-z]+(?:\s+[A-Z][a-z]+)+\<close>\<close>
  "capitalized_words =
     seqs [Chars AZ, many1 (Chars az),
           many1 (seqs [many1 (Chars white), Chars AZ, many1 (Chars az)])]"

definition titles :: regex where
  \<comment> \<open>\<open>(?:Mr|Ms|Mrs|Miss|Dr)\<close>\<close>
  "titles = alts [lit ''Mr'', lit ''Ms'', lit ''Mrs'', lit ''Miss'', lit ''Dr'']"

definition name_patterns :: "regex list" where
  "name_patterns =
     [seqs [titles, many1 (Chars (white @ one_of ''.'')), Group 1 capitalized_words],
      seqs [lit ''passenger'', many1 (Chars white), lit ''information'', many1 (Chars white),
            optional (seqs [Chars AZ, many1 (Chars az), many1 (Chars white)]),
            Group 1 capitalized_words],
      seqs [Alt (lit ''passenger'') (lit ''name''), many1 (Chars (one_of '':'' @ white)),
            Group 1 capitalized_words]]"

definition false_positives :: "string list" where
  "false_positives =
     [''Information'', ''Booking Reference'', ''Payment Status'', ''Complete'', ''Abu Dhabi'',
      ''Mumbai'', ''Travel Time'']"

fun extract_name :: "regex list \<Rightarrow> string \<Rightarrow> string option" where
  "extract_name [] text = None"
| "extract_name (pattern # patterns) text =
     (case js_match True pattern text of
        None \<Rightarrow> extract_name patterns text
      | Some m \<Rightarrow>
          (case capture m 1 of
             None \<Rightarrow> extract_name patterns text
           | Some g \<Rightarrow>
               if g \<noteq> [] \<and> \<not> list_ex (\<lambda>fp. includes_str (trim g) fp) false_positives
               then Some (trim g)
               else extract_name patterns text))"

definition name_fallback :: regex where
  "name_fallback =
     seqs [lit ''passenger'', many1 (Chars white), lit ''information'',
           Repeat 0 (Some 100) False (Chars any_char),
           optional titles, many (Chars (white @ one_of ''.'')),
           Group 1 (seqs [Chars AZ, many1 (Chars az), many1 (Chars white), Chars AZ, many1 (Chars az)])]"

definition flight_patterns :: "regex list" where
  "flight_patterns =
     [seqs [Group 1 (between 2 3 (Chars AZ)), many (Chars white), Group 2 (between 3 4 (Chars digit)),
            WordBoundary],
      seqs [WordBoundary,
            Group 1 (seqs [between 2 3 (Chars AZ), optional (Chars white), between 3 4 (Chars digit)]),
            WordBoundary]]"

definition all_digits :: regex where
  \<comment> \<open>\<open>/^\d+$/\<close>\<close>
  "all_digits = seqs [InputStart, many1 (Chars digit), InputEnd]"

fun extract_flight_number :: "regex list \<Rightarrow> string \<Rightarrow> string option" where
  "extract_flight_number [] text = None"
| "extract_flight_number (pattern # patterns) text =
     (case js_match True pattern text of
        None \<Rightarrow> extract_flight_number patterns text
      | Some m \<Rightarrow>
          (let flight_num = toUpperCase (filter (\<lambda>c. \<not> is_space c) (matched m)) in
           if js_match False all_digits flight_num = None \<and> length flight_num \<ge> 4
           then Some flight_num
           else extract_flight_number patterns text))"

definition airline_pattern :: regex where
  \<comment> \<open>\<open>/^([A-Z]{2,3})/\<close>\<close>
  "airline_pattern = seqs [InputStart, Group 1 (between 2 3 (Chars AZ))]"

definition months :: regex where
  "months = alts [lit ''Jan'', lit ''Feb'', lit ''Mar'', lit ''Apr'', lit ''May'', lit ''Jun'',
                  lit ''Jul'', lit ''Aug'', lit ''Sep'', lit ''Oct'', lit ''Nov'', lit ''Dec'']"

definition month_name_date :: regex where
  \<comment> \<open>\<open>(\d{1,2})\s+(Jan|Feb|...|Dec)[a-z]*\s+(\d{4})\<close>\<close>
  "month_name_date =
     seqs [Group 1 (between 1 2 (Chars digit)), many1 (Chars white),
           Group 2 months, many (Chars az), many1 (Chars white),
           Group 3 (between 4 4 (Chars digit))]"

definition numeric_date :: regex where
  \<comment> \<open>\<open>(\d{1,2})[\/\-](\d{1,2})[\/\-](\d{2,4})\<close>\<close>
  "numeric_date =
     seqs [Group 1 (between 1 2 (Chars digit)), Chars (one_of ''/-''),
           Group 2 (between 1 2 (Chars digit)), Chars (one_of ''/-''),
           Group 3 (between 2 4 (Chars digit))]"

definition date_patterns :: "(bool \<times> regex) list" where
  \<comment> \<open>each pattern with its flag \<open>i\<close>\<close>
  "date_patterns = [(True, month_name_date), (False, numeric_date)]"

definition push_matches :: "(rmatch \<Rightarrow> string) \<Rightarrow> string \<Rightarrow> (bool \<times> regex) \<Rightarrow> string list \<Rightarrow> string list" where
  \<comment> \<open>the inner loop over \<open>text.matchAll(pattern)\<close>: push what \<open>f\<close> makes of every match
      whose \<open>match[0]\<close> is not empty\<close>
  "push_matches f text pattern acc =
     fold (\<lambda>m acc. if matched m \<noteq> [] then acc @ [f m] else acc)
       (matchAll (fst pattern) (snd pattern) text) acc"

definition extract_dates :: "string \<Rightarrow> string list" where
  "extract_dates text = fold (push_matches matched text) date_patterns []"

definition time_patterns :: "(bool \<times> regex) list" where
  "time_patterns =
     [(True, seqs [Group 1 (between 1 2 (Chars digit)), lit '':'', Group 2 (between 2 2 (Chars digit)),
                   many (Chars white),
                   optional (alts [lit ''hrs'', lit ''hours'', lit ''am'', lit ''pm''])])]"

definition extract_times :: "string \<Rightarrow> string list" where
  "extract_times text = fold (push_matches (\<lambda>m. trim (matched m)) text) time_patterns []"

definition airport_patterns :: "regex list" where
  "airport_patterns =
     [seqs [Group 1 (between 3 3 (Chars AZ)), many1 (Chars white), lit ''-'', many1 (Chars white),
            Group 2 (seqs [many1 (Chars (AZ @ az @ white)),
                           Alt (lit ''Airport'') (lit ''International Airport'')])],
      seqs [Group 1 (between 3 3 (Chars AZ)), many1 (Chars white), lit ''to'', many1 (Chars white),
            Group 2 (between 3 3 (Chars AZ))],
      seqs [Group 1 (between 3 3 (Chars AZ)), many1 (Chars white), lit ''-'', many1 (Chars white),
            Group 2 (many1 (Chars (AZ @ az @ white)))]]"

definition push_airports :: "string \<Rightarrow> regex \<Rightarrow> (string \<times> string) list \<Rightarrow> (string \<times> string) list" where
  \<comment> \<open>pairs \<open>(code, name)\<close>; the pattern is run with the flags \<open>gi\<close>\<close>
  "push_airports text pattern acc =
     fold (\<lambda>m acc.
             (case (capture m 1, capture m 2) of
                (Some c, Some n) \<Rightarrow>
                  if c \<noteq> [] \<and> n \<noteq> [] then acc @ [(toUpperCase c, trim n)] else acc
              | _ \<Rightarrow> acc))
       (matchAll True pattern text) acc"

definition extract_airports :: "string \<Rightarrow> (string \<times> string) list" where
  "extract_airports text = fold (push_airports text) airport_patterns []"

definition airport_name_patterns :: "regex list" where
  "airport_name_patterns =
     [Group 1 (seqs [Chars AZ, many1 (Chars (az @ AZ @ white)),
                     Alt (lit ''Airport'') (lit ''International Airport'')])]"

definition push_airport_names :: "string \<Rightarrow> regex \<Rightarrow> string list \<Rightarrow> string list" where
  "push_airport_names text pattern acc =
     fold (\<lambda>m acc.
             (case capture m 1 of
                Some g \<Rightarrow> if g \<noteq> [] \<and> g \<notin> set acc then acc @ [trim g] else acc
              | None \<Rightarrow> acc))
       (matchAll False pattern text) acc"

definition extract_airport_names :: "string \<Rightarrow> string list" where
  "extract_airport_names text = fold (push_airport_names text) airport_name_patterns []"

definition or_else :: "string \<Rightarrow> string \<Rightarrow> string" where
  \<comment> \<open>\<open>a || b\<close> on strings\<close>
  "or_else a b = (if a = [] then b else a)"

definition set_pnr :: "string \<Rightarrow> fields \<Rightarrow> fields" where
  "set_pnr text data =
     (case extract_pnr pnr_patterns text of
        None \<Rightarrow> data
      | Some v \<Rightarrow> assign ''pnr'' v data)"

definition set_passenger_name :: "string \<Rightarrow> fields \<Rightarrow> fields" where
  "set_passenger_name text data =
     (let data = (case extract_name name_patterns text of
                    None \<Rightarrow> data
                  | Some v \<Rightarrow> assign ''passenger_name'' v data)
      in if falsy (lookup data ''passenger_name'') then
           (case js_match True name_fallback text of
              None \<Rightarrow> data
            | Some m \<Rightarrow>
                (case capture m 1 of
                   None \<Rightarrow> data
                 | Some g \<Rightarrow> if g \<noteq> [] then assign ''passenger_name'' (trim g) data else data))
         else data)"

definition set_flight_number :: "string \<Rightarrow> fields \<Rightarrow> fields" where
  "set_flight_number text data =
     (case extract_flight_number flight_patterns text of
        None \<Rightarrow> data
      | Some v \<Rightarrow> assign ''flight_number'' v data)"

definition set_airline :: "fields \<Rightarrow> fields" where
  "set_airline data =
     (case lookup data ''flight_number'' of
        None \<Rightarrow> data
      | Some flight_number \<Rightarrow>
          if flight_number = [] then data
          else (case js_match False airline_pattern flight_number of
                  None \<Rightarrow> data
                | Some m \<Rightarrow>
                    (case capture m 1 of
                       None \<Rightarrow> data
                     | Some g \<Rightarrow> assign ''airline'' g data)))"

definition set_dates :: "string \<Rightarrow> fields \<Rightarrow> fields" where
  "set_dates text data =
     (let dates = extract_dates text;
          data = (if length dates \<ge> 1 then assign ''departure_date'' (dates ! 0) data else data)
      in if length dates \<ge> 2 then assign ''arrival_date'' (dates ! 1) data else data)"

definition set_times :: "string \<Rightarrow> fields \<Rightarrow> fields" where
  "set_times text data =
     (let times = extract_times text;
          data = (if length times \<ge> 1 then assign ''departure_time'' (times ! 0) data else data)
      in if length times \<ge> 2 then assign ''arrival_time'' (times ! 1) data else data)"

definition set_airports :: "string \<Rightarrow> fields \<Rightarrow> fields" where
  "set_airports text data =
     (let airport_matches = extract_airports text;
          data = (if length airport_matches \<ge> 1
                  then assign ''from''
                         (or_else (snd (airport_matches ! 0)) (fst (airport_matches ! 0)))
                         (assign ''departure_airport'' (fst (airport_matches ! 0)) data)
                  else data)
      in if length airport_matches \<ge> 2
         then assign ''to''
                (or_else (snd (airport_matches ! 1)) (fst (airport_matches ! 1)))
                (assign ''arrival_airport'' (fst (airport_matches ! 1)) data)
         else data)"

definition set_airport_names :: "string \<Rightarrow> fields \<Rightarrow> fields" where
  \<comment> \<open>the fallback when \<open>from\<close> or \<open>to\<close> is still missing\<close>
  "set_airport_names text data =
     (if falsy (lookup data ''from'') \<or> falsy (lookup data ''to'') then
        (let airports = extract_airport_names text;
             data = (if length airports \<ge> 1 \<and> falsy (lookup data ''from'')
                     then assign ''from'' (airports ! 0) data else data)
         in if length airports \<ge> 2 \<and> falsy (lookup data ''to'')
            then assign ''to'' (airports ! 1) data else data)
      else data)"

definition extract_flight_data :: "string \<Rightarrow> fields" where
  \<comment> \<open>the blocks of the function, in their order, each working on \<open>data\<close>\<close>
  "extract_flight_data text =
     set_airport_names text (set_airports text (set_times text (set_dates text
       (set_airline (set_flight_number text (set_passenger_name text (set_pnr text [])))))))"

datatype ocr_status = Success | Error | Invalid

record OCRResult =
  status :: ocr_status
  data :: "fields option"
  error :: "string option"
  raw_text :: "string option"

text \<open>
  \<open>recognize\<close> stands for the download of the file and the text recognition, which are
  outside the program: it gives the recognized text, or the message of the exception raised.
\<close>

definition process_flight_ocr :: "(string \<Rightarrow> string + string) \<Rightarrow> string \<Rightarrow> OCRResult" where
  "process_flight_ocr recognize file_url =
     (case recognize file_url of
        Inl message \<Rightarrow> \<lparr>status = Error, data = None, error = Some message, raw_text = None\<rparr>
      | Inr text \<Rightarrow>
          if \<not> validate_flight_ticket text
          then \<lparr>status = Invalid, data = None,
                 error = Some ''Text does not contain flight ticket information'',
                 raw_text = Some text\<rparr>
          else \<lparr>status = Success, data = Some (extract_flight_data text), error = None,
                 raw_text = Some text\<rparr>)"

section \<open>Hotel bookings (hotel.service.ts)\<close>

definition hotel_keywords :: "string list" where
  "hotel_keywords =
     [''hotel'', ''booking'', ''reservation'', ''check-in'', ''check-out'', ''check in'',
      ''check out'', ''guest'', ''room'', ''accommodation'', ''confirmation'', ''villa'', ''host'']"

definition validate_hotel_booking :: "string \<Rightarrow> bool" where
  "validate_hotel_booking text =
     (let lower_text = toLowerCase text;
          found_keywords = filter (\<lambda>keyword. includes_str lower_text keyword) hotel_keywords
      in length found_keywords \<ge> 3)"

text \<open>
  The field extraction of the hotel service is a parameter here: none of the properties below
  depends on what it extracts.
\<close>

definition process_hotel_ocr ::
  "(string \<Rightarrow> string + string) \<Rightarrow> (string \<Rightarrow> fields) \<Rightarrow> string \<Rightarrow> OCRResult" where
  "process_hotel_ocr recognize extract_hotel_data file_url =
     (case recognize file_url of
        Inl message \<Rightarrow> \<lparr>status = Error, data = None, error = Some message, raw_text = None\<rparr>
      | Inr text \<Rightarrow>
          if \<not> validate_hotel_booking text
          then \<lparr>status = Invalid, data = None,
                 error = Some ''Text does not contain hotel booking information'',
                 raw_text = Some text\<rparr>
          else \<lparr>status = Success, data = Some (extract_hotel_data text), error = None,
                 raw_text = Some text\<rparr>)"

section \<open>Passports (passport.service.ts)\<close>

text \<open>
  \<open>verify\<close> stands for the two downloads and the call of the verification service: it gives
  the fields of the passport, or the message of the exception raised.
\<close>

definition process_passport_ocr ::
  "(string \<Rightarrow> string \<Rightarrow> string + fields) \<Rightarrow> string \<Rightarrow> string \<Rightarrow> OCRResult" where
  "process_passport_ocr verify file_front_url file_back_url =
     (case verify file_front_url file_back_url of
        Inl message \<Rightarrow> \<lparr>status = Error, data = None, error = Some message, raw_text = None\<rparr>
      | Inr extracted_data \<Rightarrow>
          \<lparr>status = Success, data = Some extracted_data, error = None, raw_text = None\<rparr>)"

subsection \<open>Sample texts\<close>

definition newline :: char where
  "newline = CHR 0x0A"

definition scenario_text :: string where
  "scenario_text =
     ''PNR: SISCPF'' @ [newline] @ ''6E 1402'' @ [newline] @ ''21 Apr 2025'' @ [newline]
     @ ''23 Apr 2025'' @ [newline] @ ''06:20 hrs'' @ [newline] @ ''21:55 hrs'' @ [newline]
     @ ''BOM - Chhatrapati Shivaji Maharaj International Airport'' @ [newline]
     @ ''AUH - Abu Dhabi International Airport''"

definition two_dates_text :: string where
  "two_dates_text = ''01/02/2025 then 21 Apr 2025''"

section \<open>Batch orchestration (process.router.ts)\<close>

record DocumentPayload = TravellerInfo +
  document_id :: string
  file_url :: string
  document_type :: string

record ProgressEvent =
  \<comment> \<open>the message of \<open>publish_progress\<close>, without its time stamp\<close>
  order_id :: string
  event_traveller_id :: string
  event_traveller_name :: string
  event_document_id :: string
  event_document_type :: string
  event_status :: string
  extracted_data :: "fields option"
  event_error :: "string option"

record OcrResultsBody =
  \<comment> \<open>the body posted to the main backend\<close>
  body_traveller_id :: string
  ticket_type :: string
  passport_front_doc_id :: "string option"
  passport_back_doc_id :: "string option"
  body_document_id :: "string option"
  ocr_status :: string
  ocr_extracted_data :: OCRResult
  mapped_to_traveller_id :: "string option"

text \<open>
  config/redis.ts holds two copies of the module. Both log the error of a rejected publication;
  the first copy throws it again, the second copy returns (``logs error but doesn't throw'').
  Which copy the process is built from is a parameter of a run.
\<close>

datatype redis_module = Rethrowing | Swallowing

text \<open>
  What lies outside the program: the configuration, the recognition engine, the verification
  service and the message broker. \<open>redis_publish n\<close> is the outcome of the \<open>n\<close>-th call of
  \<open>publisher.publish\<close>: \<open>None\<close> when the message is delivered, the message of the error when
  the call is rejected. The field extraction of the hotel service travels with them, and
  \<open>redis_copy\<close> is the copy of config/redis.ts in use.
\<close>

record world =
  ocr_progress_channel :: string
  main_backend_url :: string
  recognize :: "string \<Rightarrow> string + string"
  verify :: "string \<Rightarrow> string \<Rightarrow> string + fields"
  extract_hotel_data :: "string \<Rightarrow> fields"
  redis_publish :: "nat \<Rightarrow> string option"
  redis_copy :: redis_module

text \<open>
  The effects of a run: the calls of \<open>publisher.publish\<close> so far, each with its channel, its
  message and whether the broker delivered it, and the requests posted to the main backend with
  their addresses. The messages \<open>emitted\<close> are those handed to the publisher, the messages
  \<open>published\<close> those it delivered. A step returns \<open>Inl\<close> with the message of the exception it
  raises, or \<open>Inr\<close>.
\<close>

record trace =
  calls :: "((string \<times> ProgressEvent) \<times> bool) list"
  posted :: "(string \<times> OcrResultsBody) list"

definition attempts :: "trace \<Rightarrow> nat" where
  "attempts st = length (calls st)"

definition emitted :: "trace \<Rightarrow> (string \<times> ProgressEvent) list" where
  "emitted st = map fst (calls st)"

definition published :: "trace \<Rightarrow> (string \<times> ProgressEvent) list" where
  "published st = map fst (filter snd (calls st))"

type_synonym step = "trace \<Rightarrow> (string + unit) \<times> trace"

definition and_then :: "step \<Rightarrow> step \<Rightarrow> step" where
  \<comment> \<open>two awaited statements in a row: an exception of the first skips the second\<close>
  "and_then a b st = (case a st of (Inl e, st') \<Rightarrow> (Inl e, st') | (Inr _, st') \<Rightarrow> b st')"

definition try_catch :: "step \<Rightarrow> (string \<Rightarrow> step) \<Rightarrow> step" where
  "try_catch body handler st =
     (case body st of (Inl e, st') \<Rightarrow> handler e st' | (Inr v, st') \<Rightarrow> (Inr v, st'))"

fun for_each :: "('a \<Rightarrow> step) \<Rightarrow> 'a list \<Rightarrow> step" where
  "for_each body [] st = (Inr (), st)"
| "for_each body (x # xs) st =
     (case body x st of (Inl e, st') \<Rightarrow> (Inl e, st') | (Inr _, st') \<Rightarrow> for_each body xs st')"

text \<open>
  \<open>publish_to_redis\<close> of the first copy of config/redis.ts (lines 46 to 55) logs the error of
  the publisher and throws it again; \<open>publish_to_redis_swallowing\<close> is the function of the same
  name of the second copy (lines 125 to 135), which logs the error and returns.
  \<open>publish_progress\<close> awaits the function of the copy in use.
\<close>

definition publish_to_redis :: "world \<Rightarrow> string \<Rightarrow> ProgressEvent \<Rightarrow> step" where
  "publish_to_redis w channel message st =
     (case redis_publish w (attempts st) of
        None \<Rightarrow> (Inr (), st\<lparr>calls := calls st @ [((channel, message), True)]\<rparr>)
      | Some e \<Rightarrow> (Inl e, st\<lparr>calls := calls st @ [((channel, message), False)]\<rparr>))"

definition publish_to_redis_swallowing :: "world \<Rightarrow> string \<Rightarrow> ProgressEvent \<Rightarrow> step" where
  "publish_to_redis_swallowing w channel message st =
     (case redis_publish w (attempts st) of
        None \<Rightarrow> (Inr (), st\<lparr>calls := calls st @ [((channel, message), True)]\<rparr>)
      | Some e \<Rightarrow> (Inr (), st\<lparr>calls := calls st @ [((channel, message), False)]\<rparr>))"

definition publish_progress :: "world \<Rightarrow> string \<Rightarrow> ProgressEvent \<Rightarrow> step" where
  "publish_progress w channel message =
     (case redis_copy w of
        Rethrowing \<Rightarrow> publish_to_redis w channel message
      | Swallowing \<Rightarrow> publish_to_redis_swallowing w channel message)"

definition completed_or_failed :: "OCRResult \<Rightarrow> string" where
  "completed_or_failed result = (if status result = Success then ''COMPLETED'' else ''FAILED'')"

definition results_url :: "world \<Rightarrow> string \<Rightarrow> string" where
  "results_url w order = main_backend_url w @ ''/order/'' @ order @ ''/ocr-results''"

definition update_main_backend_with_passport ::
  "world \<Rightarrow> string \<Rightarrow> string \<Rightarrow> string \<Rightarrow> string \<Rightarrow> OCRResult \<Rightarrow> step" where
  \<comment> \<open>the request is sent; a refusal and an exception are logged only\<close>
  "update_main_backend_with_passport w order tid passport_front passport_back passport_result st =
     (Inr (), st\<lparr>posted := posted st @
        [(results_url w order,
          \<lparr>body_traveller_id = tid, ticket_type = ''passport'',
           passport_front_doc_id = Some passport_front, passport_back_doc_id = Some passport_back,
           body_document_id = None, ocr_status = completed_or_failed passport_result,
           ocr_extracted_data = passport_result, mapped_to_traveller_id = None\<rparr>)]\<rparr>)"

definition update_main_backend_with_ticket ::
  "world \<Rightarrow> string \<Rightarrow> string \<Rightarrow> string \<Rightarrow> string \<Rightarrow> OCRResult \<Rightarrow> step" where
  "update_main_backend_with_ticket w order tid doc_id ticket ticket_result st =
     (Inr (), st\<lparr>posted := posted st @
        [(results_url w order,
          \<lparr>body_traveller_id = tid, ticket_type = ticket,
           passport_front_doc_id = None, passport_back_doc_id = None,
           body_document_id = Some doc_id, ocr_status = completed_or_failed ticket_result,
           ocr_extracted_data = ticket_result, mapped_to_traveller_id = Some tid\<rparr>)]\<rparr>)"

subsection \<open>Grouping\<close>

record passport_pair =
  front_doc :: "DocumentPayload option"
  back_doc :: "DocumentPayload option"

record grouped =
  \<comment> \<open>\<open>passport_docs\<close> is a \<open>Map\<close>: its entries stay in the order of their first insertion\<close>
  passport_docs :: "(string \<times> passport_pair) list"
  flight_docs :: "DocumentPayload list"
  hotel_docs :: "DocumentPayload list"

fun update_pair ::
  "string \<Rightarrow> (passport_pair \<Rightarrow> passport_pair) \<Rightarrow> (string \<times> passport_pair) list
   \<Rightarrow> (string \<times> passport_pair) list" where
  \<comment> \<open>insert the empty pair when the traveller has none, then change the traveller's pair\<close>
  "update_pair tid f [] = [(tid, f \<lparr>front_doc = None, back_doc = None\<rparr>)]"
| "update_pair tid f ((k, p) # ps) =
     (if k = tid then (k, f p) # ps else (k, p) # update_pair tid f ps)"

definition group_document :: "DocumentPayload \<Rightarrow> grouped \<Rightarrow> grouped" where
  "group_document doc g =
     (if document_type doc = ''passport_front'' \<or> document_type doc = ''passport_back'' then
        g\<lparr>passport_docs :=
            update_pair (traveller_id doc)
              (\<lambda>passport_pair.
                 if document_type doc = ''passport_front''
                 then passport_pair\<lparr>front_doc := Some doc\<rparr>
                 else passport_pair\<lparr>back_doc := Some doc\<rparr>)
              (passport_docs g)\<rparr>
      else if document_type doc = ''flight'' then g\<lparr>flight_docs := flight_docs g @ [doc]\<rparr>
      else if document_type doc = ''hotel'' then g\<lparr>hotel_docs := hotel_docs g @ [doc]\<rparr>
      else g)"

definition group_documents :: "DocumentPayload list \<Rightarrow> grouped" where
  "group_documents documents =
     fold group_document documents \<lparr>passport_docs = [], flight_docs = [], hotel_docs = []\<rparr>"

text \<open>
  The processing units of a batch are what the three loops of the orchestrator run on: the
  entries of \<open>passport_docs\<close> that have both sides, the flight documents and the hotel documents.
\<close>

datatype ProcessingUnit =
    PassportUnit string DocumentPayload DocumentPayload
  | FlightUnit DocumentPayload
  | HotelUnit DocumentPayload

definition passport_units :: "(string \<times> passport_pair) list \<Rightarrow> ProcessingUnit list" where
  "passport_units entries =
     concat (map (\<lambda>(tid, p).
                    (case (front_doc p, back_doc p) of
                       (Some f, Some b) \<Rightarrow> [PassportUnit tid f b]
                     | _ \<Rightarrow> []))
               entries)"

definition processing_units :: "DocumentPayload list \<Rightarrow> ProcessingUnit list" where
  "processing_units documents =
     (let g = group_documents documents in
      passport_units (passport_docs g) @ map FlightUnit (flight_docs g)
        @ map HotelUnit (hotel_docs g))"

subsection \<open>The three loops\<close>

definition event ::
  "string \<Rightarrow> string \<Rightarrow> string \<Rightarrow> string \<Rightarrow> string \<Rightarrow> string \<Rightarrow> fields option \<Rightarrow> string option
   \<Rightarrow> ProgressEvent" where
  "event order tid name doc_id doc_type st extracted err =
     \<lparr>order_id = order, event_traveller_id = tid, event_traveller_name = name,
      event_document_id = doc_id, event_document_type = doc_type, event_status = st,
      extracted_data = extracted, event_error = err\<rparr>"

definition process_passport ::
  "world \<Rightarrow> string \<Rightarrow> string \<Rightarrow> string \<times> passport_pair \<Rightarrow> step" where
  "process_passport w order channel entry =
     (case entry of (tid, passport_pair) \<Rightarrow>
        (case (front_doc passport_pair, back_doc passport_pair) of
           (Some f, Some b) \<Rightarrow>
             try_catch
               (and_then
                  (publish_progress w channel
                     (event order tid (traveller_name f) (document_id f) ''passport''
                        ''processing'' None None))
                  (\<lambda>st.
                     let passport_result = process_passport_ocr (verify w) (file_url f) (file_url b)
                     in and_then
                          (publish_progress w channel
                             (event order tid (traveller_name f) (document_id f) ''passport''
                                (if status passport_result = Success then ''mapped'' else ''failed'')
                                (data passport_result) (error passport_result)))
                          (update_main_backend_with_passport w order tid (document_id f)
                             (document_id b) passport_result)
                          st))
               (\<lambda>e. publish_progress w channel
                      (event order tid (traveller_name f) (document_id f) ''passport''
                         ''failed'' None (Some e)))
         | _ \<Rightarrow> (\<lambda>st. (Inr (), st))))"

definition all_travellers :: "DocumentPayload list \<Rightarrow> TravellerInfo list" where
  "all_travellers documents =
     map (\<lambda>d. \<lparr>traveller_id = traveller_id d, traveller_name = traveller_name d\<rparr>) documents"

definition mapped_traveller :: "string option \<Rightarrow> DocumentPayload list \<Rightarrow> DocumentPayload \<Rightarrow> string" where
  \<comment> \<open>\<open>map_ticket_to_passenger(name, all_travellers) || doc.traveller_id\<close>\<close>
  "mapped_traveller name documents doc =
     (case map_ticket_to_passenger name (all_travellers documents) of
        None \<Rightarrow> traveller_id doc
      | Some tid \<Rightarrow> or_else tid (traveller_id doc))"

definition mapped_name :: "string \<Rightarrow> DocumentPayload list \<Rightarrow> DocumentPayload \<Rightarrow> string" where
  \<comment> \<open>\<open>all_travellers.find(t => t.traveller_id === id)?.traveller_name || doc.traveller_name\<close>\<close>
  "mapped_name tid documents doc =
     (case find (\<lambda>t. traveller_id t = tid) (all_travellers documents) of
        None \<Rightarrow> traveller_name doc
      | Some t \<Rightarrow> or_else (traveller_name t) (traveller_name doc))"

definition process_ticket ::
  "world \<Rightarrow> string \<Rightarrow> string \<Rightarrow> DocumentPayload list \<Rightarrow> string \<Rightarrow> string
   \<Rightarrow> (string \<Rightarrow> OCRResult) \<Rightarrow> DocumentPayload \<Rightarrow> step" where
  \<comment> \<open>the body of the loop over the flight documents and of the loop over the hotel documents,
      which differ in the document type, the service called and the name they read\<close>
  "process_ticket w order channel documents kind name_key ocr doc =
     try_catch
       (and_then
          (publish_progress w channel
             (event order (traveller_id doc) (traveller_name doc) (document_id doc) kind
                ''processing'' None None))
          (\<lambda>st.
             let ticket_result = ocr (file_url doc) in
             (case data ticket_result of
                Some extracted \<Rightarrow>
                  if status ticket_result = Success then
                    (let mapped_traveller_id =
                           mapped_traveller (lookup extracted name_key) documents doc
                     in and_then
                          (publish_progress w channel
                             (event order mapped_traveller_id
                                (mapped_name mapped_traveller_id documents doc)
                                (document_id doc) kind ''mapped'' (data ticket_result) None))
                          (update_main_backend_with_ticket w order mapped_traveller_id
                             (document_id doc) kind ticket_result)
                          st)
                  else publish_progress w channel
                         (event order (traveller_id doc) (traveller_name doc) (document_id doc)
                            kind ''failed'' None (error ticket_result)) st
              | None \<Rightarrow>
                  publish_progress w channel
                    (event order (traveller_id doc) (traveller_name doc) (document_id doc)
                       kind ''failed'' None (error ticket_result)) st)))
       (\<lambda>e. publish_progress w channel
              (event order (traveller_id doc) (traveller_name doc) (document_id doc) kind
                 ''failed'' None (Some e)))"

definition process_flight :: "world \<Rightarrow> string \<Rightarrow> string \<Rightarrow> DocumentPayload list \<Rightarrow> DocumentPayload \<Rightarrow> step" where
  "process_flight w order channel documents =
     process_ticket w order channel documents ''flight'' ''passenger_name''
       (process_flight_ocr (recognize w))"

definition process_hotel :: "world \<Rightarrow> string \<Rightarrow> string \<Rightarrow> DocumentPayload list \<Rightarrow> DocumentPayload \<Rightarrow> step" where
  "process_hotel w order channel documents =
     process_ticket w order channel documents ''hotel'' ''guest_name''
       (process_hotel_ocr (recognize w) (extract_hotel_data w))"

definition process_documents_async :: "world \<Rightarrow> string \<Rightarrow> DocumentPayload list \<Rightarrow> step" where
  \<comment> \<open>the outer handler logs the exception and throws it again\<close>
  "process_documents_async w order documents =
     (let channel = ocr_progress_channel w @ '':'' @ order;
          g = group_documents documents
      in and_then (for_each (process_passport w order channel) (passport_docs g))
           (and_then (for_each (process_flight w order channel documents) (flight_docs g))
              (for_each (process_hotel w order channel documents) (hotel_docs g))))"

definition start :: trace where
  "start = \<lparr>calls = [], posted = []\<rparr>"


subsection \<open>Sample batches\<close>

definition sample_doc :: "string \<Rightarrow> string \<Rightarrow> string \<Rightarrow> string \<Rightarrow> DocumentPayload" where
  "sample_doc tid name did kind =
     \<lparr>traveller_id = tid, traveller_name = name, document_id = did,
      file_url = ''https://files/'' @ did, document_type = kind\<rparr>"

definition two_flights :: "DocumentPayload list" where
  "two_flights = [sample_doc ''t1'' ''Jane Roe'' ''d1'' ''flight'', sample_doc ''t2'' ''John Doe'' ''d2'' ''flight'']"

definition sample_world ::
  "redis_module \<Rightarrow> (string \<Rightarrow> string + string) \<Rightarrow> (nat \<Rightarrow> string option) \<Rightarrow> world" where
  "sample_world copy rec redis =
     \<lparr>ocr_progress_channel = ''ocr_progress'', main_backend_url = ''http://localhost:3000'',
      recognize = rec, verify = (\<lambda>f b. Inl ''Gridlines API error: 500 - ''),
      extract_hotel_data = (\<lambda>t. []), redis_publish = redis, redis_copy = copy\<rparr>"


definition redis_rejects_second :: "nat \<Rightarrow> string option" where
  \<comment> \<open>the broker rejects the second call only\<close>
  "redis_rejects_second n = (if n = 1 then Some ''Connection is closed.'' else None)"

definition redis_up :: "nat \<Rightarrow> string option" where
  "redis_up n = None"

definition ticket_text :: string where
  "ticket_text = ''Flight ticket - Passenger: Mahendra Patel''"

definition hotel_text :: string where
  "hotel_text = ''Hotel booking confirmation''"

definition lone_front_batch :: "DocumentPayload list" where
  "lone_front_batch =
     [sample_doc ''t1'' ''Jane Roe'' ''d0'' ''passport_front'',
      sample_doc ''t3'' ''Jim Poe'' ''d5'' ''passport_back'',
      sample_doc ''t3'' ''Jim Poe'' ''d6'' ''passport_front'']"

subsection \<open>Notions for the proofs\<close>

text \<open>
  \<open>ticket_tail\<close> is what the \<open>try\<close> block of a ticket does after its first message, and
  \<open>passport_body\<close> the loop body for a traveller who has both sides, with the result of the
  service written out. The \<open>stage\<close> of a message is its document type, its document and whether
  it is terminal; a unit is driven through two stages, \<open>processing\<close> and a terminal one. A step
  \<open>emits P\<close> when every call of the publisher it makes satisfies \<open>P\<close>; it \<open>reports xs\<close> when
  it returns normally and the messages it hands to the publisher have the stages \<open>xs\<close>. The
  broker \<open>delivers\<close> when it rejects no call, and \<open>publish_returns\<close> holds when the copy
  in use swallows the errors or the broker delivers.
\<close>

definition ticket_tail ::
  "world \<Rightarrow> string \<Rightarrow> string \<Rightarrow> DocumentPayload list \<Rightarrow> string \<Rightarrow> string
   \<Rightarrow> (string \<Rightarrow> OCRResult) \<Rightarrow> DocumentPayload \<Rightarrow> step" where
  "ticket_tail w order channel documents kind name_key ocr doc =
          (\<lambda>st.
             let ticket_result = ocr (file_url doc) in
             (case data ticket_result of
                Some extracted \<Rightarrow>
                  if status ticket_result = Success then
                    (let mapped_traveller_id =
                           mapped_traveller (lookup extracted name_key) documents doc
                     in and_then
                          (publish_progress w channel
                             (event order mapped_traveller_id
                                (mapped_name mapped_traveller_id documents doc)
                                (document_id doc) kind ''mapped'' (data ticket_result) None))
                          (update_main_backend_with_ticket w order mapped_traveller_id
                             (document_id doc) kind ticket_result)
                          st)
                  else publish_progress w channel
                         (event order (traveller_id doc) (traveller_name doc) (document_id doc)
                            kind ''failed'' None (error ticket_result)) st
              | None \<Rightarrow>
                  publish_progress w channel
                    (event order (traveller_id doc) (traveller_name doc) (document_id doc)
                       kind ''failed'' None (error ticket_result)) st))"

definition passport_body :: "world \<Rightarrow> string \<Rightarrow> string \<Rightarrow> string \<Rightarrow> DocumentPayload \<Rightarrow> DocumentPayload \<Rightarrow> step" where
  "passport_body w order channel tid f b =
     try_catch
       (and_then
          (publish_progress w channel
             (event order tid (traveller_name f) (document_id f) ''passport''
                ''processing'' None None))
          (and_then
             (publish_progress w channel
                (event order tid (traveller_name f) (document_id f) ''passport''
                   (if status (process_passport_ocr (verify w) (file_url f) (file_url b)) = Success
                    then ''mapped'' else ''failed'')
                   (data (process_passport_ocr (verify w) (file_url f) (file_url b)))
                   (error (process_passport_ocr (verify w) (file_url f) (file_url b)))))
             (update_main_backend_with_passport w order tid (document_id f) (document_id b)
                (process_passport_ocr (verify w) (file_url f) (file_url b)))))
       (\<lambda>e. publish_progress w channel
              (event order tid (traveller_name f) (document_id f) ''passport''
                 ''failed'' None (Some e)))"




definition emits :: "((string \<times> ProgressEvent) \<times> bool \<Rightarrow> bool) \<Rightarrow> step \<Rightarrow> bool" where
  "emits P f = (\<forall>st. \<exists>new. calls (snd (f st)) = calls st @ new \<and> (\<forall>c \<in> set new. P c))"




definition both_sides :: "DocumentPayload list \<Rightarrow> string \<times> ProgressEvent \<Rightarrow> bool" where
  "both_sides documents m =
     (event_document_type (snd m) = ''passport'' \<longrightarrow>
        (\<exists>d \<in> set documents. traveller_id d = event_traveller_id (snd m)
            \<and> document_type d = ''passport_front'')
        \<and> (\<exists>d \<in> set documents. traveller_id d = event_traveller_id (snd m)
            \<and> document_type d = ''passport_back''))"

section \<open>Properties of the identity matcher\<close>

lemma best_match_loop:
  "case fold (consider_traveller n) ts None of
     None \<Rightarrow> \<forall>t \<in> set ts. fuzzy_match_name n (traveller_name t) < threshold
   | Some (tid, s) \<Rightarrow>
       \<exists>i < length ts. tid = traveller_id (ts ! i)
         \<and> s = fuzzy_match_name n (traveller_name (ts ! i)) \<and> threshold \<le> s
         \<and> (\<forall>j < length ts. fuzzy_match_name n (traveller_name (ts ! j)) \<le> s)
         \<and> (\<forall>j < i. fuzzy_match_name n (traveller_name (ts ! j)) < s)"
proof (induction ts rule: rev_induct)
  case Nil
  show ?case by simp
next
  case (snoc t ts)
  let ?sc = "\<lambda>t. fuzzy_match_name n (traveller_name t)"
  let ?prev = "fold (consider_traveller n) ts None"
  have step: "fold (consider_traveller n) (ts @ [t]) None = consider_traveller n t ?prev"
    by simp
  show ?case
  proof (cases ?prev)
    case None
    with snoc have low: "\<forall>t \<in> set ts. ?sc t < threshold" by simp
    show ?thesis
    proof (cases "threshold \<le> ?sc t")
      case True
      have res: "fold (consider_traveller n) (ts @ [t]) None = Some (traveller_id t, ?sc t)"
        unfolding step None using True by (simp add: consider_traveller_def)
      have "\<forall>j < length ts. ?sc (ts ! j) < ?sc t"
        using low True by (metis nth_mem order_less_le_trans)
      then have "\<forall>j < length (ts @ [t]). ?sc ((ts @ [t]) ! j) \<le> ?sc t"
        "\<forall>j < length ts. ?sc ((ts @ [t]) ! j) < ?sc t"
        by (auto simp: nth_append less_Suc_eq order_less_imp_le)
      then show ?thesis unfolding res using True
        by (auto intro!: exI [of _ "length ts"])
    next
      case False
      have res: "fold (consider_traveller n) (ts @ [t]) None = None"
        unfolding step None using False by (simp add: consider_traveller_def)
      show ?thesis unfolding res using False low by auto
    qed
  next
    case (Some b)
    obtain tid s where b: "b = (tid, s)" by (cases b)
    from snoc Some b obtain i where i: "i < length ts" "tid = traveller_id (ts ! i)"
      "s = ?sc (ts ! i)" "threshold \<le> s" "\<forall>j < length ts. ?sc (ts ! j) \<le> s"
      "\<forall>j < i. ?sc (ts ! j) < s"
      by auto
    show ?thesis
    proof (cases "s < ?sc t")
      case True
      have res: "fold (consider_traveller n) (ts @ [t]) None = Some (traveller_id t, ?sc t)"
        unfolding step Some b using True i(4) by (simp add: consider_traveller_def)
      have "\<forall>j < length ts. ?sc (ts ! j) < ?sc t"
        using i(5) True by (meson order_le_less_trans)
      then have "\<forall>j < length (ts @ [t]). ?sc ((ts @ [t]) ! j) \<le> ?sc t"
        "\<forall>j < length ts. ?sc ((ts @ [t]) ! j) < ?sc t"
        by (auto simp: nth_append less_Suc_eq order_less_imp_le)
      then show ?thesis unfolding res using True i(4)
        by (auto intro!: exI [of _ "length ts"])
    next
      case False
      then have le: "?sc t \<le> s" by auto
      have res: "fold (consider_traveller n) (ts @ [t]) None = Some (tid, s)"
        unfolding step Some b using False by (simp add: consider_traveller_def)
      have "\<forall>j < length (ts @ [t]). ?sc ((ts @ [t]) ! j) \<le> s"
        using i(5) le by (auto simp: nth_append less_Suc_eq)
      moreover have "\<forall>j < i. ?sc ((ts @ [t]) ! j) < s"
        using i(1,6) by (auto simp: nth_append)
      moreover have "tid = traveller_id ((ts @ [t]) ! i)" "s = ?sc ((ts @ [t]) ! i)"
        using i(1,2,3) by (auto simp: nth_append)
      ultimately show ?thesis unfolding res using i(1,4)
        by (auto intro!: exI [of _ i])
    qed
  qed
qed

text \<open>
  C3. For every extracted name and every list of travellers, the matcher walks the travellers in
  their order and returns the traveller whose score is maximal and at least 0.6; a later traveller
  replaces the best one only on a strictly greater score, so the earliest of several travellers
  with the maximal score is returned. The result is none when no traveller reaches 0.6, when the
  extracted name is absent (undefined or empty) and when the list of travellers is empty.
\<close>

theorem matcher_selects_first_best:
  "map_ticket_to_passenger None ts = None
   \<and> map_ticket_to_passenger (Some []) ts = None
   \<and> map_ticket_to_passenger name [] = None
   \<and> (n \<noteq> [] \<and> (\<forall>t \<in> set ts. fuzzy_match_name n (traveller_name t) < 3 / 5)
        \<longrightarrow> map_ticket_to_passenger (Some n) ts = None)
   \<and> (n \<noteq> [] \<and> (\<exists>t \<in> set ts. 3 / 5 \<le> fuzzy_match_name n (traveller_name t))
        \<longrightarrow> (\<exists>i < length ts.
              map_ticket_to_passenger (Some n) ts = Some (traveller_id (ts ! i))
              \<and> 3 / 5 \<le> fuzzy_match_name n (traveller_name (ts ! i))
              \<and> (\<forall>j < length ts. fuzzy_match_name n (traveller_name (ts ! j))
                     \<le> fuzzy_match_name n (traveller_name (ts ! i)))
              \<and> (\<forall>j < i. fuzzy_match_name n (traveller_name (ts ! j))
                     < fuzzy_match_name n (traveller_name (ts ! i)))))"
proof (intro conjI impI)
  show "map_ticket_to_passenger None ts = None"
    by (simp add: map_ticket_to_passenger_def)
  show "map_ticket_to_passenger (Some []) ts = None"
    by (simp add: map_ticket_to_passenger_def)
  show "map_ticket_to_passenger name [] = None"
    by (simp add: map_ticket_to_passenger_def split: option.splits)
next
  assume a: "n \<noteq> [] \<and> (\<forall>t \<in> set ts. fuzzy_match_name n (traveller_name t) < 3 / 5)"
  have "fold (consider_traveller n) ts None = None"
  proof (cases "fold (consider_traveller n) ts None")
    case None
    then show ?thesis .
  next
    case (Some b)
    obtain tid s where b: "b = (tid, s)" by (cases b)
    from best_match_loop [where n = n and ts = ts] Some b obtain i where "i < length ts"
      "threshold \<le> fuzzy_match_name n (traveller_name (ts ! i))"
      by auto
    with a show ?thesis by (auto simp: threshold_def dest!: nth_mem [of i ts])
  qed
  then show "map_ticket_to_passenger (Some n) ts = None"
    by (simp add: map_ticket_to_passenger_def)
next
  assume a: "n \<noteq> [] \<and> (\<exists>t \<in> set ts. 3 / 5 \<le> fuzzy_match_name n (traveller_name t))"
  then have ne: "ts \<noteq> []" by auto
  show "\<exists>i < length ts.
          map_ticket_to_passenger (Some n) ts = Some (traveller_id (ts ! i))
          \<and> 3 / 5 \<le> fuzzy_match_name n (traveller_name (ts ! i))
          \<and> (\<forall>j < length ts. fuzzy_match_name n (traveller_name (ts ! j))
                 \<le> fuzzy_match_name n (traveller_name (ts ! i)))
          \<and> (\<forall>j < i. fuzzy_match_name n (traveller_name (ts ! j))
                 < fuzzy_match_name n (traveller_name (ts ! i)))"
  proof (cases "fold (consider_traveller n) ts None")
    case None
    with best_match_loop [where n = n and ts = ts] a show ?thesis
      by (auto simp: threshold_def)
  next
    case (Some b)
    obtain tid s where b: "b = (tid, s)" by (cases b)
    from best_match_loop [where n = n and ts = ts] Some b obtain i where i: "i < length ts"
      "tid = traveller_id (ts ! i)" "s = fuzzy_match_name n (traveller_name (ts ! i))"
      "threshold \<le> s"
      "\<forall>j < length ts. fuzzy_match_name n (traveller_name (ts ! j)) \<le> s"
      "\<forall>j < i. fuzzy_match_name n (traveller_name (ts ! j)) < s"
      by auto
    have "map_ticket_to_passenger (Some n) ts = Some (traveller_id (ts ! i))"
      using a ne Some b i(2) by (simp add: map_ticket_to_passenger_def)
    with i show ?thesis unfolding threshold_def by blast
  qed
qed

theorem matcher_selects_first_best_witness:
  "map_ticket_to_passenger (Some ''john doe'') three_travellers = Some ''t2''
   \<and> fuzzy_match_name ''john doe'' ''John Doe'' = fuzzy_match_name ''john doe'' ''JOHN  DOE''
   \<and> map_ticket_to_passenger (Some ''Mahendra Patel'') three_travellers = None"
proof -
  have s: "fuzzy_match_name ''john doe'' ''Jane Roe'' = 0"
    "fuzzy_match_name ''john doe'' ''John Doe'' = 1"
    "fuzzy_match_name ''john doe'' ''JOHN  DOE'' = 1"
    "fuzzy_match_name ''Mahendra Patel'' ''Jane Roe'' = 0"
    "fuzzy_match_name ''Mahendra Patel'' ''John Doe'' = 0"
    "fuzzy_match_name ''Mahendra Patel'' ''JOHN  DOE'' = 0"
    by code_simp+
  have ids: "map traveller_id three_travellers = [''t1'', ''t2'', ''t3'']"
    by (simp add: three_travellers_def)
  have l: "length three_travellers = 3" by (simp add: three_travellers_def)
  have nth: "traveller_name (three_travellers ! 0) = ''Jane Roe''"
    "traveller_name (three_travellers ! 1) = ''John Doe''"
    "traveller_name (three_travellers ! Suc 0) = ''John Doe''"
    "traveller_name (three_travellers ! 2) = ''JOHN  DOE''"
    "traveller_id (three_travellers ! 0) = ''t1''"
    "traveller_id (three_travellers ! 1) = ''t2''"
    "traveller_id (three_travellers ! Suc 0) = ''t2''"
    "traveller_id (three_travellers ! 2) = ''t3''"
    by (simp_all add: three_travellers_def)
  have ex: "''john doe'' \<noteq> [] \<and> (\<exists>t \<in> set three_travellers.
      3 / 5 \<le> fuzzy_match_name ''john doe'' (traveller_name t))"
    by (simp add: three_travellers_def s)
  from matcher_selects_first_best [where ts = three_travellers and n = "''john doe''"] ex
  obtain i where i: "i < 3"
    "map_ticket_to_passenger (Some ''john doe'') three_travellers
      = Some (traveller_id (three_travellers ! i))"
    "\<forall>j < 3. fuzzy_match_name ''john doe'' (traveller_name (three_travellers ! j))
        \<le> fuzzy_match_name ''john doe'' (traveller_name (three_travellers ! i))"
    "\<forall>j < i. fuzzy_match_name ''john doe'' (traveller_name (three_travellers ! j))
        < fuzzy_match_name ''john doe'' (traveller_name (three_travellers ! i))"
    unfolding l by blast
  have "i = 0 \<or> i = 1 \<or> i = 2" using i(1) by auto
  then have "i = 1"
  proof (elim disjE)
    assume "i = 0"
    with i(3) have "fuzzy_match_name ''john doe'' (traveller_name (three_travellers ! 1))
        \<le> fuzzy_match_name ''john doe'' (traveller_name (three_travellers ! 0))"
      by simp
    then show ?thesis by (simp add: nth s)
  next
    assume "i = 1" then show ?thesis .
  next
    assume "i = 2"
    with i(4) have "fuzzy_match_name ''john doe'' (traveller_name (three_travellers ! 1))
        < fuzzy_match_name ''john doe'' (traveller_name (three_travellers ! 2))"
      by simp
    then show ?thesis by (simp add: nth s)
  qed
  with i(2) have first: "map_ticket_to_passenger (Some ''john doe'') three_travellers = Some ''t2''"
    by (simp add: nth)
  have low: "''Mahendra Patel'' \<noteq> [] \<and> (\<forall>t \<in> set three_travellers.
      fuzzy_match_name ''Mahendra Patel'' (traveller_name t) < 3 / 5)"
    by (simp add: three_travellers_def s)
  with matcher_selects_first_best [where ts = three_travellers and n = "''Mahendra Patel''"]
  have "map_ticket_to_passenger (Some ''Mahendra Patel'') three_travellers = None"
    by blast
  with first show ?thesis by (simp add: s)
qed

subsection \<open>The score against its reference definition\<close>

lemma blank_is_space: "is_space (CHR '' '')"
  by (simp add: is_space_def code_def)

lemma includes_str_sublist: "includes_str s t \<longleftrightarrow> sublist t s"
  by (induction s) (auto simp: sublist_Cons_right)

lemma trim_end_Nil [simp]: "trim_end [] = []"
  by (simp add: trim_end_def)

lemma trim_end_Cons:
  "trim_end (c # cs) = (if is_space c \<and> trim_end cs = [] then [] else c # trim_end cs)"
  by (auto simp: trim_end_def dropWhile_append)

lemma trim_end_empty: "trim_end cs = [] \<longleftrightarrow> (\<forall>c \<in> set cs. is_space c)"
  by (induction cs) (auto simp: trim_end_Cons)

lemma trim_trim_end: "trim s = trim_end (dropWhile is_space s)"
  by (simp add: trim_def trim_end_def)

lemma dropWhile_trim_end: "dropWhile is_space (trim_end x) = trim_end (dropWhile is_space x)"
proof (induction x)
  case Nil
  show ?case by simp
next
  case (Cons c cs)
  show ?case
  proof (cases "is_space c")
    case True
    show ?thesis
    proof (cases "trim_end cs = []")
      case e: True
      have "trim_end (dropWhile is_space (c # cs)) = []"
        using True e by (auto simp: trim_end_empty dest: set_dropWhileD)
      moreover have "trim_end (c # cs) = []" using True e by (simp add: trim_end_Cons)
      ultimately show ?thesis by simp
    next
      case False
      with True Cons show ?thesis by (simp add: trim_end_Cons)
    qed
  next
    case False
    then show ?thesis by (simp add: trim_end_Cons)
  qed
qed

lemma trim_end_word_append:
  "w \<noteq> [] \<Longrightarrow> \<forall>c \<in> set w. \<not> is_space c \<Longrightarrow> trim_end (w @ r) = w @ trim_end r"
proof (induction w)
  case Nil
  then show ?case by simp
next
  case (Cons c w)
  show ?case
  proof (cases w)
    case Nil
    with Cons.prems show ?thesis by (simp add: trim_end_Cons)
  next
    case (Cons d w')
    with Cons.IH Cons.prems show ?thesis by (simp add: trim_end_Cons)
  qed
qed

lemma collapse_word_append:
  "\<forall>c \<in> set w. \<not> is_space c \<Longrightarrow> collapse_spaces (w @ x) = w @ collapse_spaces x"
  by (induction w) auto

lemma tokens_empty: "tokens s = [] \<longleftrightarrow> (\<forall>c \<in> set s. is_space c)"
  by (subst tokens.simps) (auto simp: Let_def dropWhile_eq_Nil_conv)

lemma normalize_tokens: "collapse_spaces (trim s) = join_blank (tokens s)"
proof (induction s rule: tokens.induct)
  case (1 s)
  define r where "r = dropWhile is_space s"
  show ?case
  proof (cases "r = []")
    case True
    then show ?thesis
      by (subst tokens.simps) (simp add: trim_trim_end r_def [symmetric])
  next
    case False
    define w where "w = takeWhile (\<lambda>c. \<not> is_space c) r"
    define r' where "r' = dropWhile (\<lambda>c. \<not> is_space c) r"
    have split: "r = w @ r'" by (simp add: w_def r'_def)
    have hd: "\<not> is_space (hd r)" using False unfolding r_def by (metis hd_dropWhile)
    have w_ne: "w \<noteq> []" using False hd unfolding w_def by (cases r) auto
    have w_ns: "\<forall>c \<in> set w. \<not> is_space c" unfolding w_def by (auto dest: set_takeWhileD)
    have IH: "collapse_spaces (trim r') = join_blank (tokens r')"
      using 1 [OF r_def False] by (simp add: r'_def)
    have tok: "tokens s = w # tokens r'"
      by (subst tokens.simps) (simp add: Let_def r_def [symmetric] False w_def r'_def)
    have lhs: "collapse_spaces (trim s) = w @ collapse_spaces (trim_end r')"
      by (simp add: trim_trim_end r_def [symmetric] split trim_end_word_append [OF w_ne w_ns]
          collapse_word_append [OF w_ns])
    show ?thesis
    proof (cases "trim_end r' = []")
      case True
      then have "tokens r' = []" by (simp add: tokens_empty trim_end_empty)
      with True lhs tok show ?thesis by simp
    next
      case ne: False
      then obtain c r'' where r'': "r' = c # r''" by (cases r') auto
      have c: "is_space c" using r'' unfolding r'_def by (metis hd_dropWhile list.sel(1) list.distinct(1))
      have "trim_end r' = c # trim_end r''" using ne by (simp add: r'' trim_end_Cons split: if_splits)
      then have "collapse_spaces (trim_end r') = CHR '' '' # collapse_spaces (trim r')"
        using c by (simp add: dropWhile_trim_end trim_trim_end r'')
      moreover have "tokens r' \<noteq> []" using ne by (simp add: tokens_empty trim_end_empty)
      then obtain v vs where "tokens r' = v # vs" by (cases "tokens r'") auto
      ultimately show ?thesis using lhs tok IH by simp
    qed
  qed
qed

lemma tokens_unfold:
  "tokens s = (if dropWhile is_space s = [] then []
     else takeWhile (\<lambda>c. \<not> is_space c) (dropWhile is_space s)
       # tokens (dropWhile (\<lambda>c. \<not> is_space c) (dropWhile is_space s)))"
  by (rule trans [OF tokens.simps]) (simp add: Let_def)

lemma tokens_words: "w \<in> set (tokens s) \<Longrightarrow> w \<noteq> [] \<and> (\<forall>c \<in> set w. \<not> is_space c)"
proof (induction s rule: tokens.induct)
  case (1 s)
  define r where "r = dropWhile is_space s"
  have tok: "tokens s = (if r = [] then []
     else takeWhile (\<lambda>c. \<not> is_space c) r # tokens (dropWhile (\<lambda>c. \<not> is_space c) r))"
    unfolding r_def by (rule tokens_unfold)
  show ?case
  proof (cases "r = []")
    case True
    with 1(2) tok show ?thesis by simp
  next
    case False
    have hd: "\<not> is_space (hd r)" using False unfolding r_def by (metis hd_dropWhile)
    from 1(2) tok False have "w = takeWhile (\<lambda>c. \<not> is_space c) r
        \<or> w \<in> set (tokens (dropWhile (\<lambda>c. \<not> is_space c) r))"
      by simp
    then show ?thesis
    proof
      assume w: "w = takeWhile (\<lambda>c. \<not> is_space c) r"
      then have "w \<noteq> []" using False hd by (cases r) auto
      then show ?thesis using w by (auto dest: set_takeWhileD)
    next
      assume "w \<in> set (tokens (dropWhile (\<lambda>c. \<not> is_space c) r))"
      then show ?thesis by (rule 1(1) [OF r_def False])
    qed
  qed
qed

lemma split_blank_not_Nil: "split_blank s \<noteq> []"
  by (induction s) (auto split: list.splits)

lemma split_blank_word: "CHR '' '' \<notin> set w \<Longrightarrow> split_blank w = [w]"
  by (induction w) auto

lemma split_blank_word_append:
  "CHR '' '' \<notin> set w \<Longrightarrow> split_blank (w @ CHR '' '' # r) = w # split_blank r"
  by (induction w) auto

lemma split_blank_join:
  "ws \<noteq> [] \<Longrightarrow> \<forall>w \<in> set ws. CHR '' '' \<notin> set w \<Longrightarrow> split_blank (join_blank ws) = ws"
  by (induction ws rule: join_blank.induct) (auto simp: split_blank_word split_blank_word_append)

lemma tokens_Nil [simp]: "tokens [] = []"
  by (subst tokens.simps) simp

lemma tokens_space_Cons: "is_space c \<Longrightarrow> tokens (c # x) = tokens x"
  by (subst tokens.simps, subst (2) tokens.simps) simp

lemma tokens_word_append:
  assumes "w \<noteq> []" and ns: "\<forall>c \<in> set w. \<not> is_space c" and r: "r = [] \<or> is_space (hd r)"
  shows "tokens (w @ r) = w # tokens r"
proof -
  have d: "dropWhile is_space (w @ r) = w @ r" using assms(1) ns by (cases w) auto
  have tr: "takeWhile (\<lambda>c. \<not> is_space c) r = []" using r by (cases r) auto
  have dr: "dropWhile (\<lambda>c. \<not> is_space c) r = r" using r by (cases r) auto
  have t: "takeWhile (\<lambda>c. \<not> is_space c) (w @ r) = w"
    using ns tr by (simp add: takeWhile_append2)
  have dd: "dropWhile (\<lambda>c. \<not> is_space c) (w @ r) = r"
    using ns dr by (simp add: dropWhile_append2)
  show ?thesis using assms(1) by (subst tokens.simps) (simp add: d t dd Let_def)
qed

lemma tokens_join:
  "\<forall>w \<in> set ws. w \<noteq> [] \<and> (\<forall>c \<in> set w. \<not> is_space c) \<Longrightarrow> tokens (join_blank ws) = ws"
proof (induction ws rule: join_blank.induct)
  case 1
  show ?case by simp
next
  case (2 w)
  then show ?case using tokens_word_append [of w "[]"] by simp
next
  case (3 w v ws)
  then have "tokens (w @ CHR '' '' # join_blank (v # ws)) = w # tokens (CHR '' '' # join_blank (v # ws))"
    by (intro tokens_word_append) (auto simp: blank_is_space)
  then show ?case using 3 by (simp add: tokens_space_Cons blank_is_space)
qed

lemma normalize_is_ref: "normalize name = normalize_ref name"
  by (simp add: normalize_def normalize_ref_def normalize_tokens)

lemma normalized_words:
  assumes "normalize name \<noteq> []"
  shows "split_blank (normalize name) = tokens (normalize name)"
proof -
  let ?ws = "tokens (toLowerCase name)"
  have n: "normalize name = join_blank ?ws"
    by (simp add: normalize_def normalize_tokens)
  have ws: "\<forall>w \<in> set ?ws. w \<noteq> [] \<and> (\<forall>c \<in> set w. \<not> is_space c)"
    using tokens_words by blast
  then have nb: "\<forall>w \<in> set ?ws. CHR '' '' \<notin> set w"
    using blank_is_space by blast
  have "?ws \<noteq> []" using assms n by auto
  then have "split_blank (join_blank ?ws) = ?ws" using nb by (rule split_blank_join)
  moreover have "tokens (join_blank ?ws) = ?ws" using ws by (rule tokens_join)
  ultimately show ?thesis by (simp add: n)
qed

lemma score_of_blank_name:
  "normalize a = [] \<Longrightarrow> fuzzy_match_name a b = (if normalize b = [] then 1 else 4 / 5)"
  by (simp add: fuzzy_match_name_def Let_def includes_str_sublist)

text \<open>
  C4. For every pair of names the score computed by the code equals the reference score: both
  names are normalized (lower-cased, white space collapsed); the score is 1 when the normalized
  names are equal, else 0.8 when one is contained in the other, else the number of shared tokens
  over the larger token count, and 0 should a name have no token. (A name without tokens
  normalizes to the empty string, which every name contains: the last case never meets one, in
  the code and in the reference alike.)
\<close>

theorem score_refines_reference: "fuzzy_match_name a b = score_ref a b"
proof -
  let ?na = "normalize a" and ?nb = "normalize b"
  show ?thesis
  proof (cases "?na = ?nb \<or> sublist ?na ?nb \<or> sublist ?nb ?na")
    case True
    then show ?thesis
      by (auto simp: fuzzy_match_name_def score_ref_def Let_def includes_str_sublist
          normalize_is_ref [symmetric])
  next
    case False
    then have "?na \<noteq> []" "?nb \<noteq> []" by auto
    then have w: "split_blank ?na = tokens ?na" "split_blank ?nb = tokens ?nb"
      by (simp_all add: normalized_words)
    have ne: "tokens ?na \<noteq> []" "tokens ?nb \<noteq> []"
      using w split_blank_not_Nil by metis+
    have pos: "max (length (tokens ?na)) (length (tokens ?nb)) \<noteq> 0" using ne by auto
    show ?thesis using False ne pos
      by (simp add: fuzzy_match_name_def score_ref_def Let_def includes_str_sublist
          normalize_is_ref [symmetric] w)
  qed
qed

theorem score_refines_reference_witness:
  "fuzzy_match_name ''Mahendra  PATEL'' ''Patel Rashi'' = 1 / 2
   \<and> score_ref ''Mahendra  PATEL'' ''Patel Rashi'' = 1 / 2"
proof -
  have "fuzzy_match_name ''Mahendra  PATEL'' ''Patel Rashi'' = 1 / 2" by code_simp
  then show ?thesis
    using score_refines_reference [of "''Mahendra  PATEL''" "''Patel Rashi''"] by simp
qed

text \<open>
  C9. The score of a name against itself is 1, for every name and so for every non-empty one,
  and the score is not symmetric: the two names \<open>x x y\<close> and \<open>x z w\<close> score 2/3 one way and
  1/3 the other way, because the shared tokens are counted in the first name.
\<close>

theorem score_reflexive_not_symmetric:
  "fuzzy_match_name a a = 1 \<and> (\<exists>x y. fuzzy_match_name x y \<noteq> fuzzy_match_name y x)"
proof
  show "fuzzy_match_name a a = 1" by (simp add: fuzzy_match_name_def)
  have "fuzzy_match_name ''x x y'' ''x z w'' = 2 / 3" by code_simp
  moreover have "fuzzy_match_name ''x z w'' ''x x y'' = 1 / 3" by code_simp
  ultimately have "fuzzy_match_name ''x x y'' ''x z w'' \<noteq> fuzzy_match_name ''x z w'' ''x x y''"
    by simp
  then show "\<exists>x y. fuzzy_match_name x y \<noteq> fuzzy_match_name y x" by blast
qed

section \<open>Properties of the flight and hotel services\<close>

lemma keyword_hits:
  "distinct ks \<Longrightarrow> length (filter P ks) = card {k \<in> set ks. P k}"
  by (simp add: distinct_length_filter Int_def conj_commute)

lemma flight_keywords_distinct: "distinct flight_keywords \<and> length flight_keywords = 12"
  by (simp add: flight_keywords_def)

lemma hotel_keywords_distinct: "distinct hotel_keywords \<and> length hotel_keywords = 13"
  by (simp add: hotel_keywords_def)

text \<open>
  C6. For every recognized text, the flight validation counts the keywords of its fixed set of 12
  that occur in the lower-cased text, and the hotel validation those of its fixed set of 13. A text
  with fewer than 3 distinct keywords is rejected with the status invalid and carries the raw text,
  whatever its length; a text with 3 or more passes the validation.
\<close>

theorem validation_needs_three_keywords:
  "length flight_keywords = 12 \<and> distinct flight_keywords
   \<and> length hotel_keywords = 13 \<and> distinct hotel_keywords
   \<and> (validate_flight_ticket recognized
        \<longleftrightarrow> 3 \<le> card {k \<in> set flight_keywords. includes_str (toLowerCase recognized) k})
   \<and> (validate_hotel_booking recognized
        \<longleftrightarrow> 3 \<le> card {k \<in> set hotel_keywords. includes_str (toLowerCase recognized) k})
   \<and> (engine url = Inr recognized \<longrightarrow>
        (if card {k \<in> set flight_keywords. includes_str (toLowerCase recognized) k} < 3
         then status (process_flight_ocr engine url) = Invalid
              \<and> raw_text (process_flight_ocr engine url) = Some recognized
         else status (process_flight_ocr engine url) = Success)
        \<and> (if card {k \<in> set hotel_keywords. includes_str (toLowerCase recognized) k} < 3
         then status (process_hotel_ocr engine extractor url) = Invalid
              \<and> raw_text (process_hotel_ocr engine extractor url) = Some recognized
         else status (process_hotel_ocr engine extractor url) = Success))"
proof -
  have f: "validate_flight_ticket recognized
        \<longleftrightarrow> 3 \<le> card {k \<in> set flight_keywords. includes_str (toLowerCase recognized) k}"
    using keyword_hits [of flight_keywords "includes_str (toLowerCase recognized)"]
      flight_keywords_distinct
    by (simp add: validate_flight_ticket_def Let_def)
  have h: "validate_hotel_booking recognized
        \<longleftrightarrow> 3 \<le> card {k \<in> set hotel_keywords. includes_str (toLowerCase recognized) k}"
    using keyword_hits [of hotel_keywords "includes_str (toLowerCase recognized)"]
      hotel_keywords_distinct
    by (simp add: validate_hotel_booking_def Let_def)
  have pf: "engine url = Inr recognized \<Longrightarrow>
      (if \<not> validate_flight_ticket recognized
       then status (process_flight_ocr engine url) = Invalid
            \<and> raw_text (process_flight_ocr engine url) = Some recognized
       else status (process_flight_ocr engine url) = Success)"
    by (simp add: process_flight_ocr_def)
  have ph: "engine url = Inr recognized \<Longrightarrow>
      (if \<not> validate_hotel_booking recognized
       then status (process_hotel_ocr engine extractor url) = Invalid
            \<and> raw_text (process_hotel_ocr engine extractor url) = Some recognized
       else status (process_hotel_ocr engine extractor url) = Success)"
    by (simp add: process_hotel_ocr_def)
  show ?thesis
    using flight_keywords_distinct hotel_keywords_distinct f h pf ph
    by (simp add: not_le [symmetric] del: not_le)
qed

theorem validation_needs_three_keywords_witness:
  "status (process_flight_ocr (\<lambda>u. Inr ''Boarding gate 12, seat 14C'') ''u'') = Success
   \<and> status (process_flight_ocr (\<lambda>u. Inr ''Your flight ticket'') ''u'') = Invalid
   \<and> raw_text (process_flight_ocr (\<lambda>u. Inr ''Your flight ticket'') ''u'') = Some ''Your flight ticket''
   \<and> status (process_hotel_ocr (\<lambda>u. Inr ''Hotel room'') (\<lambda>t. []) ''u'') = Invalid"
proof -
  have a: "validate_flight_ticket ''Boarding gate 12, seat 14C''" by code_simp
  have b: "\<not> validate_flight_ticket ''Your flight ticket''" by code_simp
  have c: "\<not> validate_hotel_booking ''Hotel room''" by code_simp
  have ok: "status (process_flight_ocr R ''u'') = Success"
    if "R ''u'' = Inr X" "validate_flight_ticket X" for R X
    using validation_needs_three_keywords
      [where recognized = X and engine = R and url = "''u''"
        and extractor = "\<lambda>t. []"] that
    by (auto split: if_splits)
  have bad: "status (process_flight_ocr R ''u'') = Invalid
      \<and> raw_text (process_flight_ocr R ''u'') = Some X"
    if "R ''u'' = Inr X" "\<not> validate_flight_ticket X" for R X
    using validation_needs_three_keywords
      [where recognized = X and engine = R and url = "''u''"
        and extractor = "\<lambda>t. []"] that
    by (auto split: if_splits)
  have bad_hotel: "status (process_hotel_ocr R E ''u'') = Invalid"
    if "R ''u'' = Inr X" "\<not> validate_hotel_booking X" for R E X
    using validation_needs_three_keywords
      [where recognized = X and engine = R and url = "''u''" and extractor = E]
      that
    by (auto split: if_splits)
  show ?thesis
    using ok [of "\<lambda>u. Inr ''Boarding gate 12, seat 14C''", OF _ a]
      bad [of "\<lambda>u. Inr ''Your flight ticket''", OF _ b]
      bad_hotel [of "\<lambda>u. Inr ''Hotel room''" _ "\<lambda>t. []", OF _ c]
    by simp
qed


lemma lookup_assign: "lookup (assign k v d) k' = (if k' = k then Some v else lookup d k')"
  by (induction d) (auto simp: lookup_def)

lemma lookup_Nil: "lookup [] k = None"
  by (simp add: lookup_def)

lemma lookup_set_pnr: "k \<noteq> ''pnr'' \<Longrightarrow> lookup (set_pnr t d) k = lookup d k"
  by (simp add: set_pnr_def lookup_assign split: option.splits)

lemma lookup_set_passenger_name:
  "k \<noteq> ''passenger_name'' \<Longrightarrow> lookup (set_passenger_name t d) k = lookup d k"
  by (simp add: set_passenger_name_def Let_def lookup_assign split: option.splits)

lemma lookup_set_flight_number:
  "k \<noteq> ''flight_number'' \<Longrightarrow> lookup (set_flight_number t d) k = lookup d k"
  by (simp add: set_flight_number_def lookup_assign split: option.splits)

lemma lookup_set_airline: "k \<noteq> ''airline'' \<Longrightarrow> lookup (set_airline d) k = lookup d k"
  by (simp add: set_airline_def lookup_assign split: option.splits)

lemma lookup_set_times:
  "k \<noteq> ''departure_time'' \<Longrightarrow> k \<noteq> ''arrival_time'' \<Longrightarrow> lookup (set_times t d) k = lookup d k"
  by (simp add: set_times_def Let_def lookup_assign)

lemma lookup_set_airports:
  "k \<noteq> ''from'' \<Longrightarrow> k \<noteq> ''to'' \<Longrightarrow> k \<noteq> ''departure_airport'' \<Longrightarrow> k \<noteq> ''arrival_airport''
   \<Longrightarrow> lookup (set_airports t d) k = lookup d k"
  by (simp add: set_airports_def Let_def lookup_assign)

lemma lookup_set_airport_names:
  "k \<noteq> ''from'' \<Longrightarrow> k \<noteq> ''to'' \<Longrightarrow> lookup (set_airport_names t d) k = lookup d k"
  by (simp add: set_airport_names_def Let_def lookup_assign)

lemma lookup_set_dates:
  "lookup (set_dates t d) ''departure_date''
     = (if extract_dates t = [] then lookup d ''departure_date'' else Some (extract_dates t ! 0))"
  "lookup (set_dates t d) ''arrival_date''
     = (if 2 \<le> length (extract_dates t) then Some (extract_dates t ! 1) else lookup d ''arrival_date'')"
  by (auto simp: set_dates_def Let_def lookup_assign Suc_le_eq)

lemma push_loop:
  "fold (\<lambda>m acc. if P m then acc @ [f m] else acc) ms acc = acc @ map f (filter P ms)"
  by (induction ms arbitrary: acc) auto

lemma match_at_index: "match_at ic r b i s = Some m \<Longrightarrow> index m = i"
  by (auto simp: match_at_def split: option.splits)

lemma match_at_matched:
  "match_at ic r b i s = Some m \<Longrightarrow> matched m = take (length (matched m)) s"
  by (auto simp: match_at_def split: option.splits)

lemma search_all_Nil:
  "search_all ic r b i skip [] = (if skip = 0 then (case match_at ic r b i [] of None \<Rightarrow> [] | Some m \<Rightarrow> [m]) else [])"
  by simp

lemma search_all_Cons:
  "search_all ic r b i skip (c # cs) =
     (if 0 < skip then search_all ic r (Some c) (Suc i) (skip - 1) cs
      else (case match_at ic r b i (c # cs) of
              None \<Rightarrow> search_all ic r (Some c) (Suc i) 0 cs
            | Some m \<Rightarrow> m # search_all ic r (Some c) (Suc i) (length (matched m) - 1) cs))"
  by simp

lemma search_all_positions:
  "sorted_wrt (<) (map index (search_all ic r b i skip s))
   \<and> (\<forall>m \<in> set (search_all ic r b i skip s). i + skip \<le> index m)"
proof (induction s arbitrary: b i skip)
  case Nil
  show ?case
  proof (cases "match_at ic r b i []")
    case None
    then have "search_all ic r b i skip [] = []" by (simp add: search_all_Nil)
    then show ?thesis by (simp del: search_all.simps)
  next
    case (Some m)
    then have "index m = i" by (rule match_at_index)
    moreover have "search_all ic r b i skip [] = (if skip = 0 then [m] else [])"
      using Some by (simp add: search_all_Nil)
    ultimately show ?thesis by (simp del: search_all.simps)
  qed
next
  case (Cons c cs)
  show ?case
  proof (cases "0 < skip")
    case True
    then have "search_all ic r b i skip (c # cs) = search_all ic r (Some c) (Suc i) (skip - 1) cs"
      by (simp add: search_all_Cons)
    with True Cons [of "Some c" "Suc i" "skip - 1"] show ?thesis
      by (auto simp del: search_all.simps)
  next
    case False
    show ?thesis
    proof (cases "match_at ic r b i (c # cs)")
      case None
      with False have "search_all ic r b i skip (c # cs) = search_all ic r (Some c) (Suc i) 0 cs"
        by (simp add: search_all_Cons)
      with False Cons [of "Some c" "Suc i" 0] show ?thesis
        by (auto simp del: search_all.simps)
    next
      case (Some m)
      then have "index m = i" by (rule match_at_index)
      moreover from False Some have "search_all ic r b i skip (c # cs)
          = m # search_all ic r (Some c) (Suc i) (length (matched m) - 1) cs"
        by (simp add: search_all_Cons)
      ultimately show ?thesis
        using False Cons [of "Some c" "Suc i" "length (matched m) - 1"]
        by (auto simp: less_eq_Suc_le simp del: search_all.simps)
    qed
  qed
qed

lemma search_all_text:
  "drop i t = s \<Longrightarrow> m \<in> set (search_all ic r b i skip s)
   \<Longrightarrow> matched m = take (length (matched m)) (drop (index m) t)"
proof (induction s arbitrary: b i skip)
  case Nil
  show ?case
  proof (cases "match_at ic r b i []")
    case None
    then have "search_all ic r b i skip [] = []" by (simp add: search_all_Nil)
    with Nil(2) show ?thesis by (simp del: search_all.simps)
  next
    case (Some m')
    then have "search_all ic r b i skip [] = (if skip = 0 then [m'] else [])"
      by (simp add: search_all_Nil)
    with Nil(2) have "m = m'" by (simp del: search_all.simps split: if_splits)
    with Nil(1) show ?thesis
      using match_at_index [OF Some] match_at_matched [OF Some] by simp
  qed
next
  case (Cons c cs)
  from Cons.prems(1) have tl: "drop (Suc i) t = cs"
    by (metis drop_Suc list.sel(3) tl_drop)
  show ?case
  proof (cases "0 < skip")
    case True
    then have "search_all ic r b i skip (c # cs) = search_all ic r (Some c) (Suc i) (skip - 1) cs"
      by (simp add: search_all_Cons)
    with Cons.prems(2) have "m \<in> set (search_all ic r (Some c) (Suc i) (skip - 1) cs)"
      by (simp del: search_all.simps)
    then show ?thesis by (rule Cons.IH [OF tl])
  next
    case False
    show ?thesis
    proof (cases "match_at ic r b i (c # cs)")
      case None
      with False have "search_all ic r b i skip (c # cs) = search_all ic r (Some c) (Suc i) 0 cs"
        by (simp add: search_all_Cons)
      with Cons.prems(2) have "m \<in> set (search_all ic r (Some c) (Suc i) 0 cs)"
        by (simp del: search_all.simps)
      then show ?thesis by (rule Cons.IH [OF tl])
    next
      case (Some m')
      with False have "search_all ic r b i skip (c # cs)
          = m' # search_all ic r (Some c) (Suc i) (length (matched m') - 1) cs"
        by (simp add: search_all_Cons)
      with Cons.prems(2) consider "m = m'"
        | "m \<in> set (search_all ic r (Some c) (Suc i) (length (matched m') - 1) cs)"
        by (auto simp del: search_all.simps)
      then show ?thesis
      proof cases
        case 1
        with Cons.prems(1) show ?thesis
          using match_at_index [OF Some] match_at_matched [OF Some] by simp
      next
        case 2
        then show ?thesis by (rule Cons.IH [OF tl])
      qed
    qed
  qed
qed

lemma matchAll_document_order: "sorted_wrt (<) (map index (matchAll ic r t))"
  using search_all_positions [of ic r None 0 0 t] by (simp add: matchAll_def)

lemma matchAll_text:
  "m \<in> set (matchAll ic r t) \<Longrightarrow> matched m = take (length (matched m)) (drop (index m) t)"
  using search_all_text [of 0 t t m ic r None 0] by (simp add: matchAll_def)

subsection \<open>The flight number begins with a letter\<close>

lemma advancesD:
  "advances m \<Longrightarrow> m k s = Some e \<Longrightarrow> \<exists>s'. k s' = Some e \<and> length (rest s') \<le> length (rest s)"
  unfolding advances_def by blast

lemma repeat_advances_aux:
  "advances m \<Longrightarrow> repeat_re m lo hi greedy k s = Some e
   \<Longrightarrow> \<exists>s'. k s' = Some e \<and> length (rest s') \<le> length (rest s)"
proof (induction m lo hi greedy k s rule: repeat_re.induct)
  case (1 m lo hi greedy k s)
  note adv = \<open>advances m\<close>
  let ?again = "\<lambda>s'. if length (rest s') < length (rest s)
                       then repeat_re m 0 (decr hi) greedy k s' else None"
  show ?case
  proof (cases "hi = Some 0")
    case True
    with 1(5) have "k s = Some e" by (subst (asm) repeat_re.simps) simp
    then show ?thesis by blast
  next
    case stop: False
    show ?thesis
    proof (cases "0 < lo")
      case True
      with stop 1(5) have "m (\<lambda>s'. repeat_re m (lo - 1) (decr hi) greedy k s') s = Some e"
        by (subst (asm) repeat_re.simps) simp
      from advancesD [OF adv this] obtain s1 where
        s1: "repeat_re m (lo - 1) (decr hi) greedy k s1 = Some e" "length (rest s1) \<le> length (rest s)"
        by blast
      from 1(1) [OF stop True adv s1(1)] obtain s2 where
        "k s2 = Some e" "length (rest s2) \<le> length (rest s1)" by blast
      with s1(2) show ?thesis by (meson order_trans)
    next
      case lo: False
      show ?thesis
      proof (cases "k s = Some e")
        case True
        then show ?thesis by blast
      next
        case other: False
        have run: "m ?again s = Some e" and lazy: "\<not> greedy \<Longrightarrow> k s = None"
        proof -
          show "m ?again s = Some e"
          proof (cases greedy)
            case True
            with stop lo 1(5) have "(case m ?again s of Some e' \<Rightarrow> Some e' | None \<Rightarrow> k s) = Some e"
              by (subst (asm) repeat_re.simps) simp
            with other show ?thesis by (auto split: option.splits)
          next
            case False
            with stop lo 1(5) have "(case k s of Some e' \<Rightarrow> Some e' | None \<Rightarrow> m ?again s) = Some e"
              by (subst (asm) repeat_re.simps) simp
            with other show ?thesis by (auto split: option.splits)
          qed
          show "k s = None" if "\<not> greedy"
          proof -
            from that stop lo 1(5)
            have "(case k s of Some e' \<Rightarrow> Some e' | None \<Rightarrow> m ?again s) = Some e"
              by (subst (asm) repeat_re.simps) simp
            with other show ?thesis by (auto split: option.splits)
          qed
        qed
        from advancesD [OF adv run] obtain s1 where
          s1: "?again s1 = Some e" "length (rest s1) \<le> length (rest s)" by blast
        then have lt: "length (rest s1) < length (rest s)"
          and r: "repeat_re m 0 (decr hi) greedy k s1 = Some e"
          by (auto split: if_splits)
        have "\<exists>s2. k s2 = Some e \<and> length (rest s2) \<le> length (rest s1)"
        proof (cases greedy)
          case True
          from 1(2) [OF stop lo True lt adv] r True show ?thesis by simp
        next
          case False
          from 1(3) [OF stop lo False lazy [OF False] lt adv] r False show ?thesis by simp
        qed
        with s1(2) show ?thesis by (meson order_trans)
      qed
    qed
  qed
qed

lemma repeat_advances: "advances m \<Longrightarrow> advances (repeat_re m lo hi greedy)"
  unfolding advances_def [of "repeat_re m lo hi greedy"]
  by (blast intro: repeat_advances_aux)

lemma match_advances: "advances (match_re ic r)"
proof (induction r)
  case Eps
  show ?case by (auto simp: advances_def)
next
  case (Chars rs)
  show ?case
    by (auto simp: advances_def split: list.splits if_splits intro!: exI)
next
  case (Seq a b)
  show ?case unfolding advances_def
  proof (intro allI impI)
    fix k s e assume "match_re ic (Seq a b) k s = Some e"
    then have "match_re ic a (match_re ic b k) s = Some e" by simp
    from advancesD [OF Seq(1) this] obtain s1 where
      s1: "match_re ic b k s1 = Some e" "length (rest s1) \<le> length (rest s)" by blast
    from advancesD [OF Seq(2) s1(1)] obtain s2 where
      "k s2 = Some e" "length (rest s2) \<le> length (rest s1)" by blast
    with s1(2) show "\<exists>s'. k s' = Some e \<and> length (rest s') \<le> length (rest s)"
      by (meson order_trans)
  qed
next
  case (Alt a b)
  show ?case unfolding advances_def
  proof (intro allI impI)
    fix k s e assume "match_re ic (Alt a b) k s = Some e"
    then consider "match_re ic a k s = Some e" | "match_re ic b k s = Some e"
      by (auto split: option.splits)
    then show "\<exists>s'. k s' = Some e \<and> length (rest s') \<le> length (rest s)"
      using advancesD [OF Alt(1)] advancesD [OF Alt(2)] by cases blast+
  qed
next
  case (Group n a)
  show ?case unfolding advances_def
  proof (intro allI impI)
    fix k s e assume "match_re ic (Group n a) k s = Some e"
    then have "match_re ic a
       (\<lambda>s'. k (s'\<lparr>captures := (n, take (length (rest s) - length (rest s')) (rest s)) # captures s'\<rparr>)) s
        = Some e" by simp
    from advancesD [OF Group this] obtain s1 where
      "k (s1\<lparr>captures := (n, take (length (rest s) - length (rest s1)) (rest s)) # captures s1\<rparr>)
        = Some e" "length (rest s1) \<le> length (rest s)" by blast
    then show "\<exists>s'. k s' = Some e \<and> length (rest s') \<le> length (rest s)"
      by (intro exI [of _ "s1\<lparr>captures := (n, take (length (rest s) - length (rest s1)) (rest s)) # captures s1\<rparr>"]) simp
  qed
next
  case (Repeat lo hi greedy a)
  then have "advances (repeat_re (match_re ic a) lo hi greedy)" by (rule repeat_advances)
  then show ?case by (simp add: advances_def)
next
  case WordBoundary
  show ?case by (auto simp: advances_def split: if_splits)
next
  case (NotFollowedBy a)
  show ?case by (auto simp: advances_def split: option.splits)
next
  case InputStart
  show ?case by (auto simp: advances_def split: if_splits)
next
  case InputEnd
  show ?case by (auto simp: advances_def split: if_splits)
qed

lemma code_char_of: "n < 256 \<Longrightarrow> code (char_of n) = n"
  by (simp add: code_def)

lemma class_AZ_letter: "in_class ic AZ c \<Longrightarrow> letter c"
proof -
  assume a: "in_class ic AZ c"
  have lt: "code c < 256" by (simp add: code_def)
  have up: "65 \<le> code (upper_char c) \<and> code (upper_char c) \<le> 90 \<Longrightarrow> letter c"
    using lt by (auto simp: upper_char_def letter_def code_char_of split: if_splits)
  have low: "65 \<le> code (lower_char c) \<and> code (lower_char c) \<le> 90 \<Longrightarrow> letter c"
    using lt by (auto simp: lower_char_def letter_def code_char_of split: if_splits)
  have AZ: "code CHR ''A'' = 65" "code CHR ''Z'' = 90" by (simp_all add: code_def)
  from a show ?thesis
    using up low by (auto simp: in_class_def in_ranges_def AZ_def AZ letter_def)
qed

lemma letter_upper: "letter c \<Longrightarrow> 65 \<le> code (upper_char c) \<and> code (upper_char c) \<le> 90"
  by (auto simp: upper_char_def letter_def code_char_of)

lemma letter_not_space: "letter c \<Longrightarrow> \<not> is_space c"
  by (auto simp: letter_def is_space_def)

lemma leading_repeat:
  assumes "match_re ic (Repeat lo hi greedy (Chars rs)) k s = Some e" "0 < lo" "hi \<noteq> Some 0"
  shows "\<exists>c cs. rest s = c # cs \<and> in_class ic rs c
           \<and> (\<exists>s'. k s' = Some e \<and> length (rest s') \<le> length cs)"
proof -
  let ?m = "match_re ic (Chars rs)"
  from assms have run: "?m (\<lambda>s'. repeat_re ?m (lo - 1) (decr hi) greedy k s') s = Some e"
    by (simp add: repeat_re.simps [of ?m lo hi greedy k s])
  then obtain c cs where s: "rest s = c # cs" by (cases "rest s") auto
  with run have c: "in_class ic rs c"
    and r: "repeat_re ?m (lo - 1) (decr hi) greedy k (s\<lparr>prev := Some c, rest := cs\<rparr>) = Some e"
    by (auto split: if_splits)
  from repeat_advances_aux [OF match_advances r] obtain s' where
    "k s' = Some e" "length (rest s') \<le> length cs" by auto
  with s c show ?thesis by blast
qed

lemma flight_pattern_leading:
  assumes "p \<in> set flight_patterns" "match_at True p b i s = Some m"
  shows "\<exists>c cs n. s = c # cs \<and> letter c \<and> matched m = c # take n cs"
proof -
  let ?s0 = "\<lparr>prev = b, rest = s, captures = []\<rparr>"
  from assms(2) obtain e where e: "match_re True p Some ?s0 = Some e"
    and m: "matched m = take (length s - length (rest e)) s"
    by (auto simp: match_at_def split: option.splits)
  let ?letters = "Repeat 2 (Some 3) True (Chars AZ)"
  have "\<exists>k. match_re True ?letters k ?s0 = Some e
      \<and> (\<forall>s'. k s' = Some e \<longrightarrow> length (rest e) \<le> length (rest s'))"
  proof -
    from assms(1) consider
      "p = Seq (Group 1 ?letters)
             (Seq (many (Chars white)) (Seq (Group 2 (between 3 4 (Chars digit))) WordBoundary))"
      | "p = Seq WordBoundary
             (Seq (Group 1 (Seq ?letters (Seq (optional (Chars white)) (between 3 4 (Chars digit)))))
                WordBoundary)"
      by (auto simp: flight_patterns_def between_def)
    then show ?thesis
    proof cases
      case 1
      let ?tail = "Seq (many (Chars white)) (Seq (Group 2 (between 3 4 (Chars digit))) WordBoundary)"
      let ?k = "\<lambda>s'. match_re True ?tail Some
          (s'\<lparr>captures := (1, take (length (rest ?s0) - length (rest s')) (rest ?s0)) # captures s'\<rparr>)"
      from e 1 have "match_re True ?letters ?k ?s0 = Some e" by simp
      moreover have "length (rest e) \<le> length (rest s')" if "?k s' = Some e" for s'
        using advancesD [OF match_advances that] by auto
      ultimately show ?thesis by blast
    next
      case 2
      let ?inner = "Seq (optional (Chars white)) (between 3 4 (Chars digit))"
      let ?k = "match_re True ?inner (\<lambda>s'. match_re True WordBoundary Some
          (s'\<lparr>captures := (1, take (length (rest ?s0) - length (rest s')) (rest ?s0)) # captures s'\<rparr>))"
      from e 2 have "match_re True ?letters ?k ?s0 = Some e" by (simp split: if_splits)
      moreover have "length (rest e) \<le> length (rest s')" if "?k s' = Some e" for s'
      proof -
        from advancesD [OF match_advances that] obtain s1 where
          "match_re True WordBoundary Some
            (s1\<lparr>captures := (1, take (length (rest ?s0) - length (rest s1)) (rest ?s0)) # captures s1\<rparr>)
            = Some e" "length (rest s1) \<le> length (rest s')"
          by blast
        then show ?thesis by (auto split: if_splits)
      qed
      ultimately show ?thesis by blast
    qed
  qed
  then obtain k where k: "match_re True ?letters k ?s0 = Some e"
    "\<And>s'. k s' = Some e \<Longrightarrow> length (rest e) \<le> length (rest s')" by blast
  from leading_repeat [OF k(1)] obtain c cs s' where
    c: "s = c # cs" "in_class True AZ c" "k s' = Some e" "length (rest s') \<le> length cs"
    by auto
  from k(2) [OF c(3)] c(4) have "length (rest e) \<le> length cs" by simp
  then have "length s - length (rest e) = Suc (length cs - length (rest e))"
    using c(1) by simp
  with m c(1) have "matched m = c # take (length cs - length (rest e)) cs" by simp
  with c(1) class_AZ_letter [OF c(2)] show ?thesis by blast
qed

lemma search_leading:
  assumes "p \<in> set flight_patterns" "search True p b i s = Some m"
  shows "\<exists>c cs. letter c \<and> matched m = c # cs"
  using assms(2)
proof (induction s arbitrary: b i)
  case Nil
  then show ?case using flight_pattern_leading [OF assms(1)] by fastforce
next
  case (Cons x xs)
  show ?case
  proof (cases "match_at True p b i (x # xs)")
    case None
    with Cons show ?thesis by simp
  next
    case (Some m')
    with Cons.prems have "m' = m" by simp
    with Some flight_pattern_leading [OF assms(1)] show ?thesis by blast
  qed
qed

lemma flight_number_leading:
  "set ps \<subseteq> set flight_patterns \<Longrightarrow> extract_flight_number ps t = Some v
   \<Longrightarrow> \<exists>c cs. v = c # cs \<and> 65 \<le> code c \<and> code c \<le> 90"
proof (induction ps)
  case Nil
  then show ?case by simp
next
  case (Cons p ps)
  show ?case
  proof (cases "js_match True p t")
    case None
    with Cons show ?thesis by simp
  next
    case (Some m)
    let ?n = "toUpperCase (filter (\<lambda>c. \<not> is_space c) (matched m))"
    from Cons.prems(1) have "p \<in> set flight_patterns" by simp
    from search_leading [OF this] Some obtain c cs where c: "letter c" "matched m = c # cs"
      unfolding js_match_def by blast
    then have n: "?n = upper_char c # toUpperCase (filter (\<lambda>c. \<not> is_space c) cs)"
      by (simp add: toUpperCase_def letter_not_space)
    show ?thesis
    proof (cases "extract_flight_number (p # ps) t = Some ?n")
      case True
      with Cons.prems(2) n letter_upper [OF c(1)] show ?thesis by auto
    next
      case False
      with Some Cons.prems(2) have "extract_flight_number ps t = Some v"
        by (simp add: Let_def split: if_splits)
      with Cons show ?thesis by simp
    qed
  qed
qed

lemma flight_number_never_6E1402:
  "extract_flight_number flight_patterns t \<noteq> Some ''6E1402''"
proof
  assume "extract_flight_number flight_patterns t = Some ''6E1402''"
  from flight_number_leading [OF subset_refl this]
  have "65 \<le> code CHR ''6''" by simp
  then show False by (simp add: code_def)
qed

lemma lookup_set_dates_other:
  "k \<noteq> ''departure_date'' \<Longrightarrow> k \<noteq> ''arrival_date'' \<Longrightarrow> lookup (set_dates t d) k = lookup d k"
  by (simp add: set_dates_def Let_def lookup_assign)

lemma lookup_flight_number:
  "lookup (extract_flight_data t) ''flight_number'' = extract_flight_number flight_patterns t"
  by (simp add: extract_flight_data_def lookup_set_airport_names lookup_set_airports
      lookup_set_times lookup_set_dates_other lookup_set_airline lookup_set_passenger_name
      lookup_set_pnr lookup_Nil set_flight_number_def lookup_assign split: option.splits)

lemma airline_leading:
  assumes "match_at False airline_pattern b i s = Some m" "capture m 1 = Some g"
  shows "\<exists>c cs. g = c # cs \<and> 65 \<le> code c \<and> code c \<le> 90"
proof -
  let ?s0 = "\<lparr>prev = b, rest = s, captures = []\<rparr>"
  let ?letters = "Repeat 2 (Some 3) True (Chars AZ)"
  let ?k = "\<lambda>s'. Some (s'\<lparr>captures := (1, take (length (rest ?s0) - length (rest s')) (rest ?s0))
      # captures s'\<rparr>)"
  from assms(1) obtain e where e: "match_re False airline_pattern Some ?s0 = Some e"
    and m: "groups m = captures e"
    by (auto simp: match_at_def split: option.splits)
  from e have "match_re False ?letters ?k ?s0 = Some e"
    by (simp add: airline_pattern_def between_def split: if_splits)
  from leading_repeat [OF this] obtain c cs s' where
    c: "s = c # cs" "in_class False AZ c" "?k s' = Some e" "length (rest s') \<le> length cs"
    by auto
  from c(3) have "captures e = (1, take (length s - length (rest s')) s) # captures s'" by auto
  with m assms(2) have "g = take (length s - length (rest s')) s"
    by (simp add: capture_def)
  moreover have "length s - length (rest s') = Suc (length cs - length (rest s'))"
    using c(1,4) by simp
  ultimately have "g = c # take (length cs - length (rest s')) cs" using c(1) by simp
  moreover have "65 \<le> code c \<and> code c \<le> 90"
    using c(2) by (simp add: in_class_def in_ranges_def AZ_def code_def)
  ultimately show ?thesis by blast
qed

lemma airline_search_leading:
  "search False airline_pattern b i s = Some m \<Longrightarrow> capture m 1 = Some g
   \<Longrightarrow> \<exists>c cs. g = c # cs \<and> 65 \<le> code c \<and> code c \<le> 90"
proof (induction s arbitrary: b i)
  case Nil
  then show ?case using airline_leading by fastforce
next
  case (Cons x xs)
  show ?case
  proof (cases "match_at False airline_pattern b i (x # xs)")
    case None
    with Cons show ?thesis by simp
  next
    case (Some m')
    with Cons.prems have "m' = m" by simp
    with Some Cons.prems(2) airline_leading show ?thesis by blast
  qed
qed

lemma airline_of_data:
  "lookup (set_airline d) ''airline'' = Some g
   \<Longrightarrow> lookup d ''airline'' = Some g \<or> (\<exists>c cs. g = c # cs \<and> 65 \<le> code c \<and> code c \<le> 90)"
  by (auto simp: set_airline_def lookup_assign js_match_def
      split: option.splits if_splits dest: airline_search_leading)

lemma airline_never_6E: "lookup (extract_flight_data t) ''airline'' \<noteq> Some ''6E''"
proof
  let ?d = "set_flight_number t (set_passenger_name t (set_pnr t []))"
  assume "lookup (extract_flight_data t) ''airline'' = Some ''6E''"
  then have a: "lookup (set_airline ?d) ''airline'' = Some ''6E''"
    by (simp add: extract_flight_data_def lookup_set_airport_names lookup_set_airports
        lookup_set_times lookup_set_dates_other)
  have "lookup ?d ''airline'' = None"
    by (simp add: lookup_set_flight_number lookup_set_passenger_name lookup_set_pnr lookup_Nil)
  with airline_of_data [OF a] have "65 \<le> code CHR ''6''" by simp
  then show False by (simp add: code_def)
qed

lemma flight_number_of_data_never_6E1402:
  "lookup (extract_flight_data t) ''flight_number'' \<noteq> Some ''6E1402''"
  by (simp add: lookup_flight_number flight_number_never_6E1402)

text \<open>
  C7. The scenario text holds the fragments \<open>PNR: SISCPF\<close>, \<open>6E 1402\<close>, \<open>21 Apr 2025\<close>,
  \<open>23 Apr 2025\<close>, \<open>06:20 hrs\<close>, \<open>21:55 hrs\<close> and the two airport lines, in this order. The
  extractor yields the PNR, the dates, the times and the airport codes of the scenario, but
  the flight number \<open>APR2025\<close> and the airline \<open>APR\<close>: both flight-number patterns ask for
  two or three letters before the digits, which the airline code \<open>6E\<close> does not have, so the first
  match is the month and the year of the first date. (For no text at all is the flight number
  \<open>6E1402\<close> or the airline \<open>6E\<close>: \<open>flight_number_of_data_never_6E1402\<close>, \<open>airline_never_6E\<close>.)
\<close>

theorem flight_scenario_extraction:
  "extract_flight_data scenario_text =
     [(''pnr'', ''SISCPF''), (''flight_number'', ''APR2025''), (''airline'', ''APR''),
      (''departure_date'', ''21 Apr 2025''), (''arrival_date'', ''23 Apr 2025''),
      (''departure_time'', ''06:20 hrs''), (''arrival_time'', ''21:55 hrs''),
      (''departure_airport'', ''BOM''),
      (''from'', ''Chhatrapati Shivaji Maharaj International Airport''),
      (''arrival_airport'', ''AUH''), (''to'', ''Abu Dhabi International Airport'')]"
  by code_simp

text \<open>
  C8, as stated, fails: in \<open>01/02/2025 then 21 Apr 2025\<close> the numeric date comes first in the
  document, at position 0, and the date with the month name at position 16, yet the departure
  date is the latter and the arrival date the former.
\<close>

theorem dates_document_order_counterexample:
  "map (\<lambda>m. (index m, matched m)) (matchAll False numeric_date two_dates_text) = [(0, ''01/02/2025'')]
   \<and> map (\<lambda>m. (index m, matched m)) (matchAll True month_name_date two_dates_text)
       = [(16, ''21 Apr 2025'')]
   \<and> lookup (extract_flight_data two_dates_text) ''departure_date'' = Some ''21 Apr 2025''
   \<and> lookup (extract_flight_data two_dates_text) ''arrival_date'' = Some ''01/02/2025''"
  by code_simp

text \<open>
  C8, amended. For every flight text the dates are collected pattern by pattern: all matches of
  the day-month-name-year pattern in document order, followed by all matches of the numeric
  pattern in document order; every match is the text found at its position. The first collected
  date becomes the departure date and the second the arrival date, by position and without
  comparing the dates.
\<close>

theorem dates_collected_pattern_by_pattern:
  "extract_dates recognized
     = map matched (filter (\<lambda>m. matched m \<noteq> []) (matchAll True month_name_date recognized))
       @ map matched (filter (\<lambda>m. matched m \<noteq> []) (matchAll False numeric_date recognized))
   \<and> sorted_wrt (<) (map index (matchAll True month_name_date recognized))
   \<and> sorted_wrt (<) (map index (matchAll False numeric_date recognized))
   \<and> (\<forall>m \<in> set (matchAll True month_name_date recognized @ matchAll False numeric_date recognized).
         matched m = take (length (matched m)) (drop (index m) recognized))
   \<and> lookup (extract_flight_data recognized) ''departure_date''
       = (if extract_dates recognized = [] then None else Some (extract_dates recognized ! 0))
   \<and> lookup (extract_flight_data recognized) ''arrival_date''
       = (if 2 \<le> length (extract_dates recognized) then Some (extract_dates recognized ! 1)
          else None)"
proof (intro conjI)
  show "extract_dates recognized
     = map matched (filter (\<lambda>m. matched m \<noteq> []) (matchAll True month_name_date recognized))
       @ map matched (filter (\<lambda>m. matched m \<noteq> []) (matchAll False numeric_date recognized))"
    by (simp add: extract_dates_def date_patterns_def push_matches_def push_loop)
  show "sorted_wrt (<) (map index (matchAll True month_name_date recognized))"
    "sorted_wrt (<) (map index (matchAll False numeric_date recognized))"
    by (rule matchAll_document_order)+
  show "\<forall>m \<in> set (matchAll True month_name_date recognized @ matchAll False numeric_date recognized).
         matched m = take (length (matched m)) (drop (index m) recognized)"
    by (auto dest: matchAll_text)
  show "lookup (extract_flight_data recognized) ''departure_date''
       = (if extract_dates recognized = [] then None else Some (extract_dates recognized ! 0))"
    by (simp add: extract_flight_data_def lookup_set_airport_names lookup_set_airports
        lookup_set_times lookup_set_dates lookup_set_airline lookup_set_flight_number
        lookup_set_passenger_name lookup_set_pnr lookup_Nil)
  show "lookup (extract_flight_data recognized) ''arrival_date''
       = (if 2 \<le> length (extract_dates recognized) then Some (extract_dates recognized ! 1)
          else None)"
    by (simp add: extract_flight_data_def lookup_set_airport_names lookup_set_airports
        lookup_set_times lookup_set_dates lookup_set_airline lookup_set_flight_number
        lookup_set_passenger_name lookup_set_pnr lookup_Nil)
qed

theorem dates_collected_pattern_by_pattern_witness:
  "extract_dates two_dates_text = [''21 Apr 2025'', ''01/02/2025'']
   \<and> map (\<lambda>m. take (length (matched m)) (drop (index m) two_dates_text))
         (matchAll True month_name_date two_dates_text) = [''21 Apr 2025'']
   \<and> lookup (extract_flight_data two_dates_text) ''departure_date'' = Some ''21 Apr 2025''
   \<and> lookup (extract_flight_data two_dates_text) ''arrival_date'' = Some ''01/02/2025''"
proof -
  have d: "extract_dates two_dates_text = [''21 Apr 2025'', ''01/02/2025'']" by code_simp
  have m: "map matched (matchAll True month_name_date two_dates_text) = [''21 Apr 2025'']"
    by code_simp
  note inst = dates_collected_pattern_by_pattern [of two_dates_text]
  from inst have "\<forall>m \<in> set (matchAll True month_name_date two_dates_text).
      matched m = take (length (matched m)) (drop (index m) two_dates_text)"
    by simp
  then have "map (\<lambda>m. take (length (matched m)) (drop (index m) two_dates_text))
         (matchAll True month_name_date two_dates_text)
      = map matched (matchAll True month_name_date two_dates_text)"
    by (intro map_cong) simp_all
  with m inst show ?thesis unfolding d by simp
qed

section \<open>Properties of the orchestration\<close>

subsection \<open>Grouping\<close>

lemma map_of_update_pair:
  "map_of (update_pair tid f ps) k =
     (if k = tid
      then Some (f (case map_of ps tid of None \<Rightarrow> \<lparr>front_doc = None, back_doc = None\<rparr> | Some p \<Rightarrow> p))
      else map_of ps k)"
  by (induction ps) auto

lemma update_pair_keys: "fst ` set (update_pair tid f ps) = insert tid (fst ` set ps)"
proof (rule set_eqI)
  fix k
  have "k \<in> fst ` set (update_pair tid f ps) \<longleftrightarrow> map_of (update_pair tid f ps) k \<noteq> None"
    by (simp add: map_of_eq_None_iff)
  also have "\<dots> \<longleftrightarrow> k = tid \<or> map_of ps k \<noteq> None"
    by (simp add: map_of_update_pair)
  also have "\<dots> \<longleftrightarrow> k \<in> insert tid (fst ` set ps)"
    by (simp add: map_of_eq_None_iff)
  finally show "k \<in> fst ` set (update_pair tid f ps) \<longleftrightarrow> k \<in> insert tid (fst ` set ps)" .
qed

lemma update_pair_distinct:
  "distinct (map fst ps) \<Longrightarrow> distinct (map fst (update_pair tid f ps))"
proof (induction ps)
  case Nil
  show ?case by simp
next
  case (Cons kp ps)
  obtain k p where kp: "kp = (k, p)" by (cases kp)
  show ?case
  proof (cases "k = tid")
    case True
    with Cons.prems kp show ?thesis by simp
  next
    case False
    with Cons kp update_pair_keys [of tid f ps] show ?thesis by auto
  qed
qed

lemma group_documents_snoc:
  "group_documents (docs @ [d]) = group_document d (group_documents docs)"
  by (simp add: group_documents_def)

lemma group_documents_Nil:
  "group_documents [] = \<lparr>passport_docs = [], flight_docs = [], hotel_docs = []\<rparr>"
  by (simp add: group_documents_def)

lemma grouped_distinct: "distinct (map fst (passport_docs (group_documents docs)))"
proof (induction docs rule: rev_induct)
  case Nil
  show ?case by (simp add: group_documents_Nil)
next
  case (snoc d docs)
  then show ?case
    by (simp add: group_documents_snoc group_document_def update_pair_distinct)
qed

lemma grouped_flights:
  "flight_docs (group_documents docs) = filter (\<lambda>d. document_type d = ''flight'') docs"
proof (induction docs rule: rev_induct)
  case Nil
  show ?case by (simp add: group_documents_Nil)
next
  case (snoc d docs)
  then show ?case by (auto simp: group_documents_snoc group_document_def)
qed

lemma grouped_hotels:
  "hotel_docs (group_documents docs) = filter (\<lambda>d. document_type d = ''hotel'') docs"
proof (induction docs rule: rev_induct)
  case Nil
  show ?case by (simp add: group_documents_Nil)
next
  case (snoc d docs)
  then show ?case by (auto simp: group_documents_snoc group_document_def)
qed

lemma grouped_front:
  "(\<exists>p f. map_of (passport_docs (group_documents docs)) tid = Some p \<and> front_doc p = Some f)
   \<longleftrightarrow> (\<exists>d \<in> set docs. traveller_id d = tid \<and> document_type d = ''passport_front'')"
proof (induction docs rule: rev_induct)
  case Nil
  show ?case by (simp add: group_documents_Nil)
next
  case (snoc d docs)
  show ?case
  proof (cases "traveller_id d = tid
      \<and> (document_type d = ''passport_front'' \<or> document_type d = ''passport_back'')")
    case False
    then have "map_of (passport_docs (group_documents (docs @ [d]))) tid
        = map_of (passport_docs (group_documents docs)) tid"
      by (auto simp: group_documents_snoc group_document_def map_of_update_pair)
    with snoc False show ?thesis by auto
  next
    case True
    show ?thesis
    proof (cases "document_type d = ''passport_front''")
      case is_front: True
      with True have "\<exists>p f. map_of (passport_docs (group_documents (docs @ [d]))) tid = Some p
          \<and> front_doc p = Some f"
        by (simp add: group_documents_snoc group_document_def map_of_update_pair)
      with True is_front show ?thesis by auto
    next
      case other: False
      with True have b: "document_type d = ''passport_back''" by simp
      have "(\<exists>p f. map_of (passport_docs (group_documents (docs @ [d]))) tid = Some p
            \<and> front_doc p = Some f)
          \<longleftrightarrow> (\<exists>p f. map_of (passport_docs (group_documents docs)) tid = Some p
            \<and> front_doc p = Some f)"
        using True b
        by (auto simp: group_documents_snoc group_document_def map_of_update_pair
            split: option.splits)
      with snoc b show ?thesis by auto
    qed
  qed
qed

lemma grouped_back:
  "(\<exists>p b. map_of (passport_docs (group_documents docs)) tid = Some p \<and> back_doc p = Some b)
   \<longleftrightarrow> (\<exists>d \<in> set docs. traveller_id d = tid \<and> document_type d = ''passport_back'')"
proof (induction docs rule: rev_induct)
  case Nil
  show ?case by (simp add: group_documents_Nil)
next
  case (snoc d docs)
  show ?case
  proof (cases "traveller_id d = tid
      \<and> (document_type d = ''passport_front'' \<or> document_type d = ''passport_back'')")
    case False
    then have "map_of (passport_docs (group_documents (docs @ [d]))) tid
        = map_of (passport_docs (group_documents docs)) tid"
      by (auto simp: group_documents_snoc group_document_def map_of_update_pair)
    with snoc False show ?thesis by auto
  next
    case True
    show ?thesis
    proof (cases "document_type d = ''passport_back''")
      case is_back: True
      with True have "\<exists>p b. map_of (passport_docs (group_documents (docs @ [d]))) tid = Some p
          \<and> back_doc p = Some b"
        by (simp add: group_documents_snoc group_document_def map_of_update_pair)
      with True is_back show ?thesis by auto
    next
      case other: False
      with True have f: "document_type d = ''passport_front''" by simp
      have "(\<exists>p b. map_of (passport_docs (group_documents (docs @ [d]))) tid = Some p
            \<and> back_doc p = Some b)
          \<longleftrightarrow> (\<exists>p b. map_of (passport_docs (group_documents docs)) tid = Some p
            \<and> back_doc p = Some b)"
        using True f
        by (auto simp: group_documents_snoc group_document_def map_of_update_pair
            split: option.splits)
      with snoc f show ?thesis by auto
    qed
  qed
qed

lemma passport_units_member:
  "PassportUnit tid f b \<in> set (passport_units ps)
   \<longleftrightarrow> (\<exists>p. (tid, p) \<in> set ps \<and> front_doc p = Some f \<and> back_doc p = Some b)"
  by (induction ps) (auto simp: passport_units_def split: option.splits)

lemma passport_unit_iff:
  "(\<exists>f b. PassportUnit tid f b \<in> set (passport_units (passport_docs (group_documents docs))))
   \<longleftrightarrow> (\<exists>d \<in> set docs. traveller_id d = tid \<and> document_type d = ''passport_front'')
     \<and> (\<exists>d \<in> set docs. traveller_id d = tid \<and> document_type d = ''passport_back'')"
proof -
  let ?ps = "passport_docs (group_documents docs)"
  have m: "(tid, p) \<in> set ?ps \<longleftrightarrow> map_of ?ps tid = Some p" for p
    using grouped_distinct [of docs] by simp
  have "(\<exists>f b. PassportUnit tid f b \<in> set (passport_units ?ps))
      \<longleftrightarrow> (\<exists>p f b. map_of ?ps tid = Some p \<and> front_doc p = Some f \<and> back_doc p = Some b)"
    by (auto simp: passport_units_member m)
  also have "\<dots> \<longleftrightarrow> (\<exists>p f. map_of ?ps tid = Some p \<and> front_doc p = Some f)
      \<and> (\<exists>p b. map_of ?ps tid = Some p \<and> back_doc p = Some b)"
    by auto
  finally show ?thesis by (simp only: grouped_front grouped_back)
qed

subsection \<open>What the steps hand to the publisher\<close>

lemma published_append:
  "calls st' = calls st @ new \<Longrightarrow> published st' = published st @ map fst (filter snd new)"
  by (simp add: published_def)

lemma emitted_append: "calls st' = calls st @ new \<Longrightarrow> emitted st' = emitted st @ map fst new"
  by (simp add: emitted_def)

lemma emitsI:
  "(\<And>st. \<exists>new. calls (snd (f st)) = calls st @ new \<and> (\<forall>c \<in> set new. P c)) \<Longrightarrow> emits P f"
  by (simp add: emits_def)

lemma emits_skip: "emits P (\<lambda>st. (Inr (), st))"
  by (simp add: emits_def)

lemma emits_publish: "(\<And>b. P ((channel, e), b)) \<Longrightarrow> emits P (publish_progress w channel e)"
  by (auto simp: emits_def publish_progress_def publish_to_redis_def
      publish_to_redis_swallowing_def split: option.splits redis_module.splits)


lemma emits_passport_update:
  "emits P (update_main_backend_with_passport w order tid f b r)"
  by (simp add: emits_def update_main_backend_with_passport_def)

lemma emits_ticket_update:
  "emits P (update_main_backend_with_ticket w order tid d k r)"
  by (simp add: emits_def update_main_backend_with_ticket_def)

lemma emits_and_then:
  assumes "emits P a" "emits P b"
  shows "emits P (and_then a b)"
proof (rule emitsI)
  fix st
  obtain r st' where a: "a st = (r, st')" by (cases "a st")
  from assms(1) a obtain n1 where n1: "calls st' = calls st @ n1" "\<forall>c \<in> set n1. P c"
    unfolding emits_def by (metis snd_conv)
  show "\<exists>new. calls (snd (and_then a b st)) = calls st @ new \<and> (\<forall>c \<in> set new. P c)"
  proof (cases r)
    case (Inl e)
    with a n1 show ?thesis by (auto simp: and_then_def)
  next
    case (Inr u)
    from assms(2) obtain n2 where n2: "calls (snd (b st')) = calls st' @ n2" "\<forall>c \<in> set n2. P c"
      unfolding emits_def by blast
    have "calls (snd (and_then a b st)) = calls st @ (n1 @ n2)"
      using a Inr n1 n2 by (simp add: and_then_def)
    moreover have "\<forall>c \<in> set (n1 @ n2). P c" using n1 n2 by auto
    ultimately show ?thesis by blast
  qed
qed

lemma emits_try_catch:
  assumes "emits P body" "\<And>e. emits P (handler e)"
  shows "emits P (try_catch body handler)"
proof (rule emitsI)
  fix st
  obtain r st' where a: "body st = (r, st')" by (cases "body st")
  from assms(1) a obtain n1 where n1: "calls st' = calls st @ n1" "\<forall>c \<in> set n1. P c"
    unfolding emits_def by (metis snd_conv)
  show "\<exists>new. calls (snd (try_catch body handler st)) = calls st @ new
      \<and> (\<forall>c \<in> set new. P c)"
  proof (cases r)
    case (Inr u)
    with a n1 show ?thesis by (auto simp: try_catch_def)
  next
    case (Inl e)
    from assms(2) [of e] obtain n2 where
      n2: "calls (snd (handler e st')) = calls st' @ n2" "\<forall>c \<in> set n2. P c"
      unfolding emits_def by blast
    have "calls (snd (try_catch body handler st)) = calls st @ (n1 @ n2)"
      using a Inl n1 n2 by (simp add: try_catch_def)
    moreover have "\<forall>c \<in> set (n1 @ n2). P c" using n1 n2 by auto
    ultimately show ?thesis by blast
  qed
qed

lemma emits_for_each:
  assumes "\<And>x. x \<in> set xs \<Longrightarrow> emits P (body x)"
  shows "emits P (for_each body xs)"
  using assms
proof (induction xs)
  case Nil
  show ?case by (simp add: emits_def)
next
  case (Cons x xs)
  have "for_each body (x # xs) = and_then (body x) (for_each body xs)"
    by (rule ext) (simp add: and_then_def)
  with Cons show ?case by (simp add: emits_and_then)
qed

lemma process_ticket_tail:
  "process_ticket w order channel documents kind name_key ocr doc =
     try_catch
       (and_then
          (publish_progress w channel
             (event order (traveller_id doc) (traveller_name doc) (document_id doc) kind
                ''processing'' None None))
          (ticket_tail w order channel documents kind name_key ocr doc))
       (\<lambda>e. publish_progress w channel
              (event order (traveller_id doc) (traveller_name doc) (document_id doc) kind
                 ''failed'' None (Some e)))"
  unfolding process_ticket_def ticket_tail_def ..

lemma ticket_tail_cases:
  "ticket_tail w order channel docs kind key ocr d =
     (if status (ocr (file_url d)) = Success \<and> data (ocr (file_url d)) \<noteq> None
      then and_then
             (publish_progress w channel
                (event order
                   (mapped_traveller (lookup (the (data (ocr (file_url d)))) key) docs d)
                   (mapped_name
                      (mapped_traveller (lookup (the (data (ocr (file_url d)))) key) docs d) docs d)
                   (document_id d) kind ''mapped'' (data (ocr (file_url d))) None))
             (update_main_backend_with_ticket w order
                (mapped_traveller (lookup (the (data (ocr (file_url d)))) key) docs d)
                (document_id d) kind (ocr (file_url d)))
      else publish_progress w channel
             (event order (traveller_id d) (traveller_name d) (document_id d)
                kind ''failed'' None (error (ocr (file_url d)))))"
  by (rule ext) (simp add: ticket_tail_def Let_def split: option.splits)

lemma emits_ticket_tail:
  assumes "\<And>tid name s x err.
    emits P (publish_progress w channel (event order tid name (document_id d) kind s x err))"
  shows "emits P (ticket_tail w order channel docs kind key ocr d)"
proof (cases "status (ocr (file_url d)) = Success \<and> data (ocr (file_url d)) \<noteq> None")
  case True
  show ?thesis unfolding ticket_tail_cases if_P [OF True]
    by (intro emits_and_then emits_ticket_update assms)
next
  case False
  show ?thesis unfolding ticket_tail_cases if_not_P [OF False] by (rule assms)
qed

lemma emits_process_ticket:
  assumes "\<And>tid name s x err.
    emits P (publish_progress w channel (event order tid name (document_id d) kind s x err))"
  shows "emits P (process_ticket w order channel docs kind key ocr d)"
  unfolding process_ticket_tail
  by (intro emits_try_catch emits_and_then emits_ticket_tail assms)

lemma emits_passport_body:
  assumes "\<And>name d s x err.
    emits P (publish_progress w channel (event order tid name d ''passport'' s x err))"
  shows "emits P (passport_body w order channel tid f b)"
  unfolding passport_body_def
  by (intro emits_try_catch emits_and_then emits_passport_update assms)

lemma process_passport_both:
  "front_doc p = Some f \<Longrightarrow> back_doc p = Some b
   \<Longrightarrow> process_passport w order channel (tid, p) = passport_body w order channel tid f b"
  by (simp add: process_passport_def passport_body_def Let_def)

lemma process_passport_lone:
  "front_doc p = None \<or> back_doc p = None
   \<Longrightarrow> process_passport w order channel (tid, p) = (\<lambda>st. (Inr (), st))"
  by (auto simp: process_passport_def split: option.splits)

lemma emits_process_passport:
  assumes "entry \<in> set (passport_docs (group_documents documents))"
  shows "emits (\<lambda>c. both_sides documents (fst c)) (process_passport w order channel entry)"
proof -
  obtain tid p where e: "entry = (tid, p)" by (cases entry)
  show ?thesis
  proof (cases "front_doc p = None \<or> back_doc p = None")
    case True
    then show ?thesis unfolding e by (simp only: process_passport_lone emits_skip)
  next
    case False
    then obtain f b where fb: "front_doc p = Some f" "back_doc p = Some b" by auto
    with assms e have "PassportUnit tid f b
        \<in> set (passport_units (passport_docs (group_documents documents)))"
      by (auto simp: passport_units_member)
    then have "(\<exists>d \<in> set documents. traveller_id d = tid \<and> document_type d = ''passport_front'')
        \<and> (\<exists>d \<in> set documents. traveller_id d = tid \<and> document_type d = ''passport_back'')"
      using passport_unit_iff [of tid documents] by blast
    then have "both_sides documents (channel, event order tid name d ''passport'' s x err)"
      for name d s x err
      by (simp add: both_sides_def event_def)
    then show ?thesis
      unfolding e process_passport_both [OF fb]
      by (intro emits_passport_body emits_publish) simp
  qed
qed

lemma passport_events_have_both_sides:
  "emits (\<lambda>c. both_sides documents (fst c)) (process_documents_async w order documents)"
proof -
  have t: "both_sides documents (channel, event order tid name d kind s x err)"
    if "kind = ''flight'' \<or> kind = ''hotel''" for channel tid name d kind s x err
    using that by (auto simp: both_sides_def event_def)
  show ?thesis
    unfolding process_documents_async_def Let_def process_flight_def process_hotel_def
    by (intro emits_and_then emits_for_each emits_process_passport emits_process_ticket
        emits_publish) (simp_all add: t)
qed


subsection \<open>The stages of the units\<close>

























lemma failed_ticket_posts_nothing:
  "status (ocr (file_url d)) \<noteq> Success
   \<Longrightarrow> posted (snd (process_ticket w order channel docs kind key ocr d st)) = posted st"
  by (auto simp: process_ticket_tail ticket_tail_cases try_catch_def and_then_def
      publish_progress_def publish_to_redis_def publish_to_redis_swallowing_def
      split: option.splits redis_module.splits)

lemma unmatched_ticket:
  assumes s: "status (ocr (file_url d)) = Success" and x: "data (ocr (file_url d)) = Some extracted"
    and n: "map_ticket_to_passenger (lookup extracted key) (all_travellers documents) = None"
    and r: "redis_copy w = Swallowing
      \<or> redis_publish w (attempts st) = None \<and> redis_publish w (Suc (attempts st)) = None"
  shows "process_ticket w order channel documents kind key ocr d st =
     (Inr (),
      st\<lparr>calls := calls st @
           [((channel, event order (traveller_id d) (traveller_name d) (document_id d) kind
                         ''processing'' None None),
             redis_publish w (attempts st) = None),
            ((channel, event order (traveller_id d) (mapped_name (traveller_id d) documents d)
                         (document_id d) kind ''mapped'' (Some extracted) None),
             redis_publish w (Suc (attempts st)) = None)],
         posted := posted st @
           [(results_url w order,
             \<lparr>body_traveller_id = traveller_id d, ticket_type = kind,
              passport_front_doc_id = None, passport_back_doc_id = None,
              body_document_id = Some (document_id d), ocr_status = ''COMPLETED'',
              ocr_extracted_data = ocr (file_url d),
              mapped_to_traveller_id = Some (traveller_id d)\<rparr>)]\<rparr>)"
proof -
  have m: "mapped_traveller (lookup extracted key) documents d = traveller_id d"
    using n by (simp add: mapped_traveller_def)
  show ?thesis
  proof (cases "redis_copy w")
    case Swallowing
    with s x show ?thesis
      by (simp add: process_ticket_tail ticket_tail_cases m try_catch_def and_then_def
          publish_progress_def publish_to_redis_swallowing_def attempts_def
          update_main_backend_with_ticket_def completed_or_failed_def split: option.splits)
  next
    case Rethrowing
    with r have "redis_publish w (attempts st) = None" "redis_publish w (Suc (attempts st)) = None"
      by simp_all
    with s x Rethrowing show ?thesis
      by (simp add: process_ticket_tail ticket_tail_cases m try_catch_def and_then_def
          publish_progress_def publish_to_redis_def attempts_def
          update_main_backend_with_ticket_def completed_or_failed_def)
  qed
qed




text \<open>
  C2. The claim: a unit whose extraction is invalid or in error is reported to the main backend
  with a failed outcome. The code: for a flight or hotel document whose result is not a success
  the failed message is published, and \<open>update_main_backend_with_ticket\<close> is not called (for
  no ticket at all: \<open>failed_ticket_posts_nothing\<close>). Below, with either copy of config/redis.ts,
  a flight document whose text has no flight keyword: two messages, \<open>processing\<close> and \<open>failed\<close>,
  and nothing posted; and the same for a hotel document that cannot be downloaded.
\<close>

theorem failed_ticket_not_reported:
  "fst (process_documents_async (sample_world copy (\<lambda>u. Inr ''hello'') redis_up) ''order-1''
          [sample_doc ''t1'' ''Jane Roe'' ''d1'' ''flight''] start) = Inr ()
   \<and> map (\<lambda>m. (event_status (snd m), event_error (snd m)))
        (published (snd (process_documents_async (sample_world copy (\<lambda>u. Inr ''hello'') redis_up)
          ''order-1'' [sample_doc ''t1'' ''Jane Roe'' ''d1'' ''flight''] start)))
      = [(''processing'', None),
         (''failed'', Some ''Text does not contain flight ticket information'')]
   \<and> posted (snd (process_documents_async (sample_world copy (\<lambda>u. Inr ''hello'') redis_up)
          ''order-1'' [sample_doc ''t1'' ''Jane Roe'' ''d1'' ''flight''] start)) = []
   \<and> status (process_hotel_ocr (\<lambda>u. Inl ''Failed to download hotel booking: 403 Forbidden'')
        (\<lambda>t. []) ''https://files/d7'') = Error
   \<and> map (\<lambda>m. (event_status (snd m), event_error (snd m)))
        (published (snd (process_documents_async
          (sample_world copy (\<lambda>u. Inl ''Failed to download hotel booking: 403 Forbidden'') redis_up)
          ''order-1'' [sample_doc ''t2'' ''John Doe'' ''d7'' ''hotel''] start)))
      = [(''processing'', None),
         (''failed'', Some ''Failed to download hotel booking: 403 Forbidden'')]
   \<and> posted (snd (process_documents_async
          (sample_world copy (\<lambda>u. Inl ''Failed to download hotel booking: 403 Forbidden'') redis_up)
          ''order-1'' [sample_doc ''t2'' ''John Doe'' ''d7'' ''hotel''] start)) = []"
  by (cases copy; hypsubst; code_simp)

text \<open>
  C5. For every batch, the units are the passport pairs, then one unit for every flight document
  and one for every hotel document; a traveller has a passport unit if and only if the batch
  holds a \<open>passport_front\<close> and a \<open>passport_back\<close> document of that traveller; and every passport
  message a run delivers, and every passport message it hands to the publisher, belongs to a
  traveller with both sides, so that a lone side yields no unit, no message and no error.
\<close>

theorem passport_unit_needs_both_sides:
  "processing_units documents
     = passport_units (passport_docs (group_documents documents))
       @ map FlightUnit (filter (\<lambda>d. document_type d = ''flight'') documents)
       @ map HotelUnit (filter (\<lambda>d. document_type d = ''hotel'') documents)
   \<and> ((\<exists>f b. PassportUnit tid f b \<in> set (processing_units documents))
        \<longleftrightarrow> (\<exists>d \<in> set documents. traveller_id d = tid \<and> document_type d = ''passport_front'')
          \<and> (\<exists>d \<in> set documents. traveller_id d = tid \<and> document_type d = ''passport_back''))
   \<and> (\<forall>m \<in> set (published (snd (process_documents_async w order documents start))).
         event_document_type (snd m) = ''passport'' \<longrightarrow>
           (\<exists>d \<in> set documents. traveller_id d = event_traveller_id (snd m)
               \<and> document_type d = ''passport_front'')
           \<and> (\<exists>d \<in> set documents. traveller_id d = event_traveller_id (snd m)
               \<and> document_type d = ''passport_back''))
   \<and> (\<forall>m \<in> set (emitted (snd (process_documents_async w order documents start))).
         event_document_type (snd m) = ''passport'' \<longrightarrow>
           (\<exists>d \<in> set documents. traveller_id d = event_traveller_id (snd m)
               \<and> document_type d = ''passport_front'')
           \<and> (\<exists>d \<in> set documents. traveller_id d = event_traveller_id (snd m)
               \<and> document_type d = ''passport_back''))"
proof (intro conjI)
  show u: "processing_units documents
     = passport_units (passport_docs (group_documents documents))
       @ map FlightUnit (filter (\<lambda>d. document_type d = ''flight'') documents)
       @ map HotelUnit (filter (\<lambda>d. document_type d = ''hotel'') documents)"
    by (simp add: processing_units_def Let_def grouped_flights grouped_hotels)
  have "(\<exists>f b. PassportUnit tid f b \<in> set (processing_units documents))
      \<longleftrightarrow> (\<exists>f b. PassportUnit tid f b
            \<in> set (passport_units (passport_docs (group_documents documents))))"
    unfolding u by auto
  then show "(\<exists>f b. PassportUnit tid f b \<in> set (processing_units documents))
        \<longleftrightarrow> (\<exists>d \<in> set documents. traveller_id d = tid \<and> document_type d = ''passport_front'')
          \<and> (\<exists>d \<in> set documents. traveller_id d = tid \<and> document_type d = ''passport_back'')"
    by (simp only: passport_unit_iff)
  from passport_events_have_both_sides [of documents w order]
  obtain new where "calls (snd (process_documents_async w order documents start))
      = calls start @ new" "\<forall>c \<in> set new. both_sides documents (fst c)"
    unfolding emits_def by blast
  then have e: "\<forall>m \<in> set (emitted (snd (process_documents_async w order documents start))).
      both_sides documents m"
    by (simp add: start_def emitted_def)
  then have "\<forall>m \<in> set (published (snd (process_documents_async w order documents start))).
      both_sides documents m"
    by (auto simp: emitted_def published_def)
  then show "\<forall>m \<in> set (published (snd (process_documents_async w order documents start))).
         event_document_type (snd m) = ''passport'' \<longrightarrow>
           (\<exists>d \<in> set documents. traveller_id d = event_traveller_id (snd m)
               \<and> document_type d = ''passport_front'')
           \<and> (\<exists>d \<in> set documents. traveller_id d = event_traveller_id (snd m)
               \<and> document_type d = ''passport_back'')"
    unfolding both_sides_def .
  from e show "\<forall>m \<in> set (emitted (snd (process_documents_async w order documents start))).
         event_document_type (snd m) = ''passport'' \<longrightarrow>
           (\<exists>d \<in> set documents. traveller_id d = event_traveller_id (snd m)
               \<and> document_type d = ''passport_front'')
           \<and> (\<exists>d \<in> set documents. traveller_id d = event_traveller_id (snd m)
               \<and> document_type d = ''passport_back'')"
    unfolding both_sides_def .
qed

theorem passport_unit_needs_both_sides_witness:
  "(\<exists>f b. PassportUnit ''t3'' f b \<in> set (processing_units lone_front_batch))
   \<and> \<not> (\<exists>f b. PassportUnit ''t1'' f b \<in> set (processing_units lone_front_batch))
   \<and> map (\<lambda>m. (event_document_type (snd m), event_traveller_id (snd m), event_status (snd m)))
       (published (snd (process_documents_async
          (sample_world Rethrowing (\<lambda>u. Inr ''hello'') redis_up)
          ''order-1'' lone_front_batch start)))
     = [(''passport'', ''t3'', ''processing''), (''passport'', ''t3'', ''failed'')]
   \<and> (\<exists>d \<in> set lone_front_batch. traveller_id d = ''t3'' \<and> document_type d = ''passport_back'')"
proof -
  let ?run = "process_documents_async (sample_world Rethrowing (\<lambda>u. Inr ''hello'') redis_up)
          ''order-1'' lone_front_batch start"
  note inst = passport_unit_needs_both_sides
    [where documents = lone_front_batch
      and w = "sample_world Rethrowing (\<lambda>u. Inr ''hello'') redis_up"
      and order = "''order-1''"]
  have t3: "(\<exists>d \<in> set lone_front_batch. traveller_id d = ''t3'' \<and> document_type d = ''passport_front'')
      \<and> (\<exists>d \<in> set lone_front_batch. traveller_id d = ''t3'' \<and> document_type d = ''passport_back'')"
    by (simp add: lone_front_batch_def sample_doc_def)
  have t1: "\<not> (\<exists>d \<in> set lone_front_batch. traveller_id d = ''t1'' \<and> document_type d = ''passport_back'')"
    by (simp add: lone_front_batch_def sample_doc_def)
  have ev: "map (\<lambda>m. (event_document_type (snd m), event_traveller_id (snd m), event_status (snd m)))
       (published (snd ?run))
     = [(''passport'', ''t3'', ''processing''), (''passport'', ''t3'', ''failed'')]"
    by code_simp
  then obtain m where m: "m \<in> set (published (snd ?run))"
    "event_document_type (snd m) = ''passport''" "event_traveller_id (snd m) = ''t3''"
    by (cases "published (snd ?run)") auto
  from inst [of "''t3''"] m have "\<exists>d \<in> set lone_front_batch. traveller_id d = ''t3''
      \<and> document_type d = ''passport_back''"
    by metis
  moreover from inst [of "''t3''"] t3
  have "\<exists>f b. PassportUnit ''t3'' f b \<in> set (processing_units lone_front_batch)" by blast
  moreover from inst [of "''t1''"] t1
  have "\<not> (\<exists>f b. PassportUnit ''t1'' f b \<in> set (processing_units lone_front_batch))" by blast
  ultimately show ?thesis using ev by blast
qed

text \<open>
  C10. The claim: a flight or hotel unit whose extraction succeeds and whose name the matcher
  does not find still ends as \<open>mapped\<close>, never as failed, the mapped message and the report
  carrying the traveller of the document. Against the first copy of config/redis.ts this fails
  when the publication of the mapped message is rejected: below the extraction succeeds, the
  matcher finds no traveller, the broker rejects the second call only, and the unit hands the
  mapped message to the publisher, catches the exception, publishes \<open>failed\<close> and posts nothing.
\<close>

theorem rejected_publish_fails_unmatched_ticket:
  "status (process_flight_ocr (\<lambda>u. Inr ticket_text) ''https://files/d1'') = Success
   \<and> map_option (\<lambda>extracted. map_ticket_to_passenger (lookup extracted ''passenger_name'')
                    (all_travellers two_flights))
       (data (process_flight_ocr (\<lambda>u. Inr ticket_text) ''https://files/d1'')) = Some None
   \<and> file_url (sample_doc ''t1'' ''Jane Roe'' ''d1'' ''flight'') = ''https://files/d1''
   \<and> fst (process_flight (sample_world Rethrowing (\<lambda>u. Inr ticket_text) redis_rejects_second)
        ''order-1'' ''ocr_progress:order-1'' two_flights
        (sample_doc ''t1'' ''Jane Roe'' ''d1'' ''flight'') start) = Inr ()
   \<and> map (\<lambda>c. (event_status (snd (fst c)), snd c))
       (calls (snd (process_flight
          (sample_world Rethrowing (\<lambda>u. Inr ticket_text) redis_rejects_second)
          ''order-1'' ''ocr_progress:order-1'' two_flights
          (sample_doc ''t1'' ''Jane Roe'' ''d1'' ''flight'') start)))
     = [(''processing'', True), (''mapped'', False), (''failed'', True)]
   \<and> map (\<lambda>m. event_status (snd m))
       (published (snd (process_flight
          (sample_world Rethrowing (\<lambda>u. Inr ticket_text) redis_rejects_second)
          ''order-1'' ''ocr_progress:order-1'' two_flights
          (sample_doc ''t1'' ''Jane Roe'' ''d1'' ''flight'') start)))
     = [''processing'', ''failed'']
   \<and> posted (snd (process_flight
          (sample_world Rethrowing (\<lambda>u. Inr ticket_text) redis_rejects_second)
          ''order-1'' ''ocr_progress:order-1'' two_flights
          (sample_doc ''t1'' ''Jane Roe'' ''d1'' ''flight'') start)) = []"
  by code_simp

text \<open>
  C10, amended. For a flight or hotel document whose extraction succeeds, when the matcher finds
  no traveller for the extracted name, the traveller the unit maps to is the traveller of the
  document itself; and when the two publications of the unit return normally, which they always
  do in the copy of config/redis.ts that swallows the error and do in the other copy when the
  broker accepts both, the unit ends as \<open>mapped\<close>, not as failed: it hands \<open>processing\<close> and
  \<open>mapped\<close> to the publisher and reports \<open>COMPLETED\<close> to the main backend, the mapped message
  and the report carrying the traveller of the document.
\<close>

theorem unmatched_ticket_keeps_own_traveller:
  "(map_ticket_to_passenger name (all_travellers documents) = None
    \<longrightarrow> mapped_traveller name documents d = traveller_id d)
   \<and> (status (process_flight_ocr (recognize w) (file_url d)) = Success
      \<and> data (process_flight_ocr (recognize w) (file_url d)) = Some extracted
      \<and> map_ticket_to_passenger (lookup extracted ''passenger_name'') (all_travellers documents) = None
      \<and> (redis_copy w = Swallowing
         \<or> redis_publish w (attempts st) = None \<and> redis_publish w (Suc (attempts st)) = None)
    \<longrightarrow> process_flight w order channel documents d st =
         (Inr (),
          st\<lparr>calls := calls st @
               [((channel, event order (traveller_id d) (traveller_name d) (document_id d)
                             ''flight'' ''processing'' None None),
                 redis_publish w (attempts st) = None),
                ((channel, event order (traveller_id d) (mapped_name (traveller_id d) documents d)
                             (document_id d) ''flight'' ''mapped'' (Some extracted) None),
                 redis_publish w (Suc (attempts st)) = None)],
             posted := posted st @
               [(results_url w order,
                 \<lparr>body_traveller_id = traveller_id d, ticket_type = ''flight'',
                  passport_front_doc_id = None, passport_back_doc_id = None,
                  body_document_id = Some (document_id d), ocr_status = ''COMPLETED'',
                  ocr_extracted_data = process_flight_ocr (recognize w) (file_url d),
                  mapped_to_traveller_id = Some (traveller_id d)\<rparr>)]\<rparr>))
   \<and> (status (process_hotel_ocr (recognize w) (extract_hotel_data w) (file_url d)) = Success
      \<and> data (process_hotel_ocr (recognize w) (extract_hotel_data w) (file_url d)) = Some extracted
      \<and> map_ticket_to_passenger (lookup extracted ''guest_name'') (all_travellers documents) = None
      \<and> (redis_copy w = Swallowing
         \<or> redis_publish w (attempts st) = None \<and> redis_publish w (Suc (attempts st)) = None)
    \<longrightarrow> process_hotel w order channel documents d st =
         (Inr (),
          st\<lparr>calls := calls st @
               [((channel, event order (traveller_id d) (traveller_name d) (document_id d)
                             ''hotel'' ''processing'' None None),
                 redis_publish w (attempts st) = None),
                ((channel, event order (traveller_id d) (mapped_name (traveller_id d) documents d)
                             (document_id d) ''hotel'' ''mapped'' (Some extracted) None),
                 redis_publish w (Suc (attempts st)) = None)],
             posted := posted st @
               [(results_url w order,
                 \<lparr>body_traveller_id = traveller_id d, ticket_type = ''hotel'',
                  passport_front_doc_id = None, passport_back_doc_id = None,
                  body_document_id = Some (document_id d), ocr_status = ''COMPLETED'',
                  ocr_extracted_data =
                    process_hotel_ocr (recognize w) (extract_hotel_data w) (file_url d),
                  mapped_to_traveller_id = Some (traveller_id d)\<rparr>)]\<rparr>))"
proof (intro conjI)
  show "map_ticket_to_passenger name (all_travellers documents) = None
    \<longrightarrow> mapped_traveller name documents d = traveller_id d"
    by (simp add: mapped_traveller_def)
qed (unfold process_flight_def process_hotel_def,
    (intro impI; elim conjE; rule unmatched_ticket; assumption)+)

theorem unmatched_ticket_keeps_own_traveller_witness:
  "map (\<lambda>c. (event_status (snd (fst c)), event_traveller_id (snd (fst c)), snd c))
     (calls (snd (process_flight
        (sample_world Swallowing (\<lambda>u. Inr ticket_text) redis_rejects_second) ''order-1''
        ''ocr_progress:order-1'' two_flights (sample_doc ''t1'' ''Jane Roe'' ''d1'' ''flight'') start)))
     = [(''processing'', ''t1'', True), (''mapped'', ''t1'', False)]
   \<and> map (\<lambda>b. (ocr_status (snd b), mapped_to_traveller_id (snd b)))
     (posted (snd (process_flight
        (sample_world Swallowing (\<lambda>u. Inr ticket_text) redis_rejects_second) ''order-1''
        ''ocr_progress:order-1'' two_flights (sample_doc ''t1'' ''Jane Roe'' ''d1'' ''flight'') start)))
     = [(''COMPLETED'', Some ''t1'')]
   \<and> map (\<lambda>m. (event_status (snd m), event_traveller_id (snd m)))
     (published (snd (process_hotel (sample_world Rethrowing (\<lambda>u. Inr hotel_text) redis_up)
        ''order-1'' ''ocr_progress:order-1'' two_flights
        (sample_doc ''t2'' ''John Doe'' ''d7'' ''hotel'') start)))
     = [(''processing'', ''t2''), (''mapped'', ''t2'')]
   \<and> map (\<lambda>b. (ocr_status (snd b), mapped_to_traveller_id (snd b)))
     (posted (snd (process_hotel (sample_world Rethrowing (\<lambda>u. Inr hotel_text) redis_up)
        ''order-1'' ''ocr_progress:order-1'' two_flights
        (sample_doc ''t2'' ''John Doe'' ''d7'' ''hotel'') start)))
     = [(''COMPLETED'', Some ''t2'')]"
proof -
  let ?wf = "sample_world Swallowing (\<lambda>u. Inr ticket_text) redis_rejects_second"
  let ?wh = "sample_world Rethrowing (\<lambda>u. Inr hotel_text) redis_up"
  let ?df = "sample_doc ''t1'' ''Jane Roe'' ''d1'' ''flight''"
  let ?dh = "sample_doc ''t2'' ''John Doe'' ''d7'' ''hotel''"
  have x: "extract_flight_data ticket_text
      = [(''pnr'', ''FLIGHT''), (''passenger_name'', ''Mahendra Patel''),
         (''departure_airport'', ''KET''), (''from'', ''Passenger'')]"
    by code_simp
  have v: "validate_flight_ticket ticket_text" by code_simp
  have vh: "validate_hotel_booking hotel_text" by code_simp
  have hf: "status (process_flight_ocr (recognize ?wf) (file_url ?df)) = Success
      \<and> data (process_flight_ocr (recognize ?wf) (file_url ?df)) = Some (extract_flight_data ticket_text)
      \<and> map_ticket_to_passenger (lookup (extract_flight_data ticket_text) ''passenger_name'')
          (all_travellers two_flights) = None
      \<and> (redis_copy ?wf = Swallowing
         \<or> redis_publish ?wf (attempts start) = None \<and> redis_publish ?wf (Suc (attempts start)) = None)"
  proof (intro conjI)
    show "map_ticket_to_passenger (lookup (extract_flight_data ticket_text) ''passenger_name'')
          (all_travellers two_flights) = None"
      unfolding x by code_simp
  qed (simp_all add: process_flight_ocr_def sample_world_def v)
  have hh: "status (process_hotel_ocr (recognize ?wh) (extract_hotel_data ?wh) (file_url ?dh)) = Success
      \<and> data (process_hotel_ocr (recognize ?wh) (extract_hotel_data ?wh) (file_url ?dh)) = Some []
      \<and> map_ticket_to_passenger (lookup [] ''guest_name'') (all_travellers two_flights) = None
      \<and> (redis_copy ?wh = Swallowing
         \<or> redis_publish ?wh (attempts start) = None \<and> redis_publish ?wh (Suc (attempts start)) = None)"
    by (simp add: process_hotel_ocr_def sample_world_def vh redis_up_def lookup_def
        map_ticket_to_passenger_def)
  have r: "(redis_publish ?wf (attempts start) = None) = True"
    "(redis_publish ?wf (Suc (attempts start)) = None) = False"
    "(redis_publish ?wh (attempts start) = None) = True"
    "(redis_publish ?wh (Suc (attempts start)) = None) = True"
    by (simp_all add: sample_world_def redis_rejects_second_def redis_up_def attempts_def start_def)
  note inst = unmatched_ticket_keeps_own_traveller
  from inst [where w = ?wf and d = ?df and documents = two_flights and st = start
        and extracted = "extract_flight_data ticket_text" and order = "''order-1''"
        and channel = "''ocr_progress:order-1''"] hf
  have f: "process_flight ?wf ''order-1'' ''ocr_progress:order-1'' two_flights ?df start =
         (Inr (),
          start\<lparr>calls := calls start @
               [((''ocr_progress:order-1'', event ''order-1'' (traveller_id ?df) (traveller_name ?df) (document_id ?df)
                            ''flight'' ''processing'' None None),
                 redis_publish ?wf (attempts start) = None),
                ((''ocr_progress:order-1'', event ''order-1'' (traveller_id ?df) (mapped_name (traveller_id ?df) two_flights ?df)
                            (document_id ?df) ''flight'' ''mapped'' (Some (extract_flight_data ticket_text)) None),
                 redis_publish ?wf (Suc (attempts start)) = None)],
             posted := posted start @
               [(results_url ?wf ''order-1'',
                 \<lparr>body_traveller_id = traveller_id ?df, ticket_type = ''flight'',
                  passport_front_doc_id = None, passport_back_doc_id = None,
                  body_document_id = Some (document_id ?df), ocr_status = ''COMPLETED'',
                  ocr_extracted_data = process_flight_ocr (recognize ?wf) (file_url ?df),
                  mapped_to_traveller_id = Some (traveller_id ?df)\<rparr>)]\<rparr>)"
    by blast
  from inst [where w = ?wh and d = ?dh and documents = two_flights and st = start
        and extracted = "[]" and order = "''order-1''"
        and channel = "''ocr_progress:order-1''"] hh
  have h: "process_hotel ?wh ''order-1'' ''ocr_progress:order-1'' two_flights ?dh start =
         (Inr (),
          start\<lparr>calls := calls start @
               [((''ocr_progress:order-1'', event ''order-1'' (traveller_id ?dh) (traveller_name ?dh) (document_id ?dh)
                            ''hotel'' ''processing'' None None),
                 redis_publish ?wh (attempts start) = None),
                ((''ocr_progress:order-1'', event ''order-1'' (traveller_id ?dh) (mapped_name (traveller_id ?dh) two_flights ?dh)
                            (document_id ?dh) ''hotel'' ''mapped'' (Some []) None),
                 redis_publish ?wh (Suc (attempts start)) = None)],
             posted := posted start @
               [(results_url ?wh ''order-1'',
                 \<lparr>body_traveller_id = traveller_id ?dh, ticket_type = ''hotel'',
                  passport_front_doc_id = None, passport_back_doc_id = None,
                  body_document_id = Some (document_id ?dh), ocr_status = ''COMPLETED'',
                  ocr_extracted_data = process_hotel_ocr (recognize ?wh) (extract_hotel_data ?wh) (file_url ?dh),
                  mapped_to_traveller_id = Some (traveller_id ?dh)\<rparr>)]\<rparr>)"
    by blast
  show ?thesis
    unfolding f h r by (simp add: start_def event_def sample_doc_def published_def)
qed

end
